theory Spec2Isabelle
  imports Main "HOL-Library.Sublist" "HOL-Library.Multiset"
begin

section \<open>The notes application of \<^verbatim>\<open>src/notes_frontend/src/App.js\<close>\<close>

text \<open>
  The component \<^verbatim>\<open>App\<close> keeps its state in React hooks and changes it in event
  handlers and effects. The embedding passes the state explicitly: each handler and each
  effect is a function from the state, and from what it reads of its environment (the
  clock, the random generator, the answer of the confirmation dialog), to the new state.
\<close>

subsection \<open>Data model\<close>

text \<open>
  A JavaScript string is the list of its UTF-16 code units, which are the numbers below
  65536. The theorems hold of every list of numbers, the strings among them. \<open>js\<close>
  writes a string of ASCII characters as such a list.
\<close>

type_synonym js_string = "nat list"

definition js :: "string \<Rightarrow> js_string" where
  "js s = map of_char s"

text \<open>
  A note is the object \<^verbatim>\<open>{id, title, content, updated}\<close>; \<^verbatim>\<open>updated\<close> holds a value of
  \<^verbatim>\<open>Date.now()\<close>, an integer number of milliseconds. The field \<^verbatim>\<open>id\<close> is \<open>note_id\<close>
  here and the state variable \<^verbatim>\<open>notes\<close> is \<open>notes'\<close>, since \<open>id\<close> and \<open>notes\<close> are
  taken in Isabelle; for the same reason \<^verbatim>\<open>includes\<close> on strings is \<open>includes_str\<close>.
\<close>

record Note =
  note_id :: js_string
  title :: js_string
  content :: js_string
  updated :: int

text \<open>
  \<^verbatim>\<open>handleEditNote(id, field, value)\<close> is called from two places only, both of
  \<^verbatim>\<open>NoteEditor\<close>: with \<^verbatim>\<open>"title"\<close> and with \<^verbatim>\<open>"content"\<close>.
\<close>

datatype field = Title | Content

record app_state =
  notes' :: "Note list"
  selectedId :: "js_string option"
  query :: js_string
  sidebarOpen :: bool
  addMode :: bool

text \<open>The one exception a handler of the component can raise by itself.\<close>

datatype js_error = TypeError

subsection \<open>Strings: \<^verbatim>\<open>includes\<close> and \<^verbatim>\<open>toString(radix)\<close>\<close>

text \<open>\<^verbatim>\<open>s.includes(q)\<close>: \<^verbatim>\<open>q\<close> occurs in \<^verbatim>\<open>s\<close> at some position.\<close>

fun includes_str :: "js_string \<Rightarrow> js_string \<Rightarrow> bool" where
  "includes_str [] q = (q = [])"
| "includes_str (c # cs) q = (prefix q (c # cs) \<or> includes_str cs q)"

text \<open>
  \<^verbatim>\<open>Number.prototype.toString(radix)\<close> on an integer: the digits \<^verbatim>\<open>0-9a-z\<close>, most
  significant first, after a minus sign for a negative number. The radix is 36 in
  \<^verbatim>\<open>generateId\<close> and 10 where \<^verbatim>\<open>JSON.stringify\<close> writes a number; JavaScript
  throws on a radix outside 2 to 36, which the component never passes.
\<close>

definition digit_char :: "nat \<Rightarrow> nat" where
  "digit_char d = (if d < 10 then 48 + d else 87 + d)"

fun digits :: "nat \<Rightarrow> nat \<Rightarrow> js_string" where
  "digits b n =
     (if b < 2 \<or> n < b then [digit_char n] else digits b (n div b) @ [digit_char (n mod b)])"

declare digits.simps [simp del]

definition toString :: "nat \<Rightarrow> int \<Rightarrow> js_string" where
  "toString radix t =
     (if t < 0 then 45 # digits radix (nat (- t)) else digits radix (nat t))"

subsection \<open>\<^verbatim>\<open>String.prototype.toLowerCase\<close>\<close>

text \<open>
  \<^verbatim>\<open>toLowerCase\<close> is a function of the JavaScript library, defined by the case tables
  of Unicode, which the repository does not hold. The functions that call it take it as
  the parameter \<open>toLowerCase\<close>, and what is proved of them holds whatever function it is.

  The examples use it on two kinds of strings. On a string of code units below 256
  (ASCII and Latin-1) it maps every code unit by itself: the letters \<^verbatim>\<open>A\<close> to \<^verbatim>\<open>Z\<close> and the
  letters from \<^verbatim>\<open>U+00C0\<close> to \<^verbatim>\<open>U+00DE\<close>, without the sign \<^verbatim>\<open>U+00D7\<close>, to the code
  unit 32 higher, every other one to itself. \<open>toLowerCase_latin1\<close> is \<^verbatim>\<open>toLowerCase\<close>
  on these strings, and on these only.
\<close>

definition lower_latin1 :: "nat \<Rightarrow> nat" where
  "lower_latin1 c =
     (if (65 \<le> c \<and> c \<le> 90) \<or> (192 \<le> c \<and> c \<le> 222 \<and> c \<noteq> 215) then c + 32 else c)"

definition toLowerCase_latin1 :: "js_string \<Rightarrow> js_string" where
  "toLowerCase_latin1 s = map lower_latin1 s"

text \<open>
  On Greek capital letters \<^verbatim>\<open>toLowerCase\<close> depends on the context: a capital sigma
  \<^verbatim>\<open>U+03A3\<close> becomes the final sigma \<^verbatim>\<open>U+03C2\<close> when a letter stands before it and
  none after it, and \<^verbatim>\<open>U+03C3\<close> otherwise (the condition Final_Sigma of the Unicode
  special casing, which ECMA-262 follows). \<open>kosmos\<close> and \<open>kos\<close> are the words of
  six and of three capital letters kappa, omicron, sigma, mu, omicron, sigma and kappa,
  omicron, sigma; \<open>toLowerCase_kosmos\<close> has the values of \<^verbatim>\<open>toLowerCase\<close> at these two
  strings and at the empty string, and is used at no other string.
\<close>

definition kosmos :: js_string where
  "kosmos = [0x39A, 0x39F, 0x3A3, 0x39C, 0x39F, 0x3A3]"

definition kos :: js_string where
  "kos = [0x39A, 0x39F, 0x3A3]"

definition toLowerCase_kosmos :: "js_string \<Rightarrow> js_string" where
  "toLowerCase_kosmos x =
     (if x = kosmos then [0x3BA, 0x3BF, 0x3C3, 0x3BC, 0x3BF, 0x3C2]
      else if x = kos then [0x3BA, 0x3BF, 0x3C2]
      else x)"

subsection \<open>\<^verbatim>\<open>generateId\<close>\<close>

text \<open>
  \<^verbatim>\<open>"note_" + Math.random().toString(36).substr(2, 9) + "_" + Date.now().toString(36)\<close>.
  The function reads the random generator and the clock; \<open>rnd\<close> is the string that
  \<^verbatim>\<open>Math.random().toString(36).substr(2, 9)\<close> evaluates to (at most nine digits of
  \<^verbatim>\<open>0-9a-z\<close>) and \<open>now\<close> the value of \<^verbatim>\<open>Date.now()\<close>.
\<close>

definition generateId :: "js_string \<Rightarrow> int \<Rightarrow> js_string" where
  "generateId rnd now = js ''note_'' @ rnd @ js ''_'' @ toString 36 now"

subsection \<open>\<^verbatim>\<open>Array.prototype.sort\<close>, \<^verbatim>\<open>findIndex\<close>, indexing\<close>

text \<open>
  \<^verbatim>\<open>xs.sort(cmp)\<close> is a stable sort: \<^verbatim>\<open>a\<close> is placed before \<^verbatim>\<open>b\<close> when
  \<^verbatim>\<open>cmp(a, b) < 0\<close>, and elements that compare equal keep their order.
\<close>

fun insert_cmp :: "('a \<Rightarrow> 'a \<Rightarrow> int) \<Rightarrow> 'a \<Rightarrow> 'a list \<Rightarrow> 'a list" where
  "insert_cmp cmp x [] = [x]"
| "insert_cmp cmp x (y # ys) =
     (if cmp x y \<le> 0 then x # y # ys else y # insert_cmp cmp x ys)"

definition sort_cmp :: "('a \<Rightarrow> 'a \<Rightarrow> int) \<Rightarrow> 'a list \<Rightarrow> 'a list" where
  "sort_cmp cmp xs = foldr (insert_cmp cmp) xs []"

text \<open>\<^verbatim>\<open>xs.findIndex(P)\<close>: the first index whose element satisfies \<^verbatim>\<open>P\<close>, or \<^verbatim>\<open>-1\<close>.\<close>

fun findIndex :: "('a \<Rightarrow> bool) \<Rightarrow> 'a list \<Rightarrow> int" where
  "findIndex P [] = - 1"
| "findIndex P (x # xs) =
     (if P x then 0 else (let k = findIndex P xs in if k < 0 then - 1 else k + 1))"

text \<open>
  \<^verbatim>\<open>notes[k].id\<close>: outside the array \<^verbatim>\<open>notes[k]\<close> is \<^verbatim>\<open>undefined\<close>, and reading
  its \<^verbatim>\<open>id\<close> throws a \<^verbatim>\<open>TypeError\<close>.
\<close>

definition id_at :: "Note list \<Rightarrow> int \<Rightarrow> js_error + js_string" where
  "id_at ns k =
     (if 0 \<le> k \<and> k < int (length ns) then Inr (note_id (ns ! nat k)) else Inl TypeError)"

subsection \<open>The filtered view and the selection effect\<close>

text \<open>
  \<^verbatim>\<open>getFilteredNotes\<close> reads \<^verbatim>\<open>notes\<close> and \<^verbatim>\<open>query\<close> of the state; \<^verbatim>\<open>!query\<close> holds of
  the empty string only.
\<close>

definition getFilteredNotes :: "(js_string \<Rightarrow> js_string) \<Rightarrow> app_state \<Rightarrow> Note list" where
  "getFilteredNotes toLowerCase s =
     (if query s = [] then sort_cmp (\<lambda>a b. updated b - updated a) (notes' s)
      else
        let q = toLowerCase (query s) in
        sort_cmp (\<lambda>a b. updated b - updated a)
          (filter
            (\<lambda>n. includes_str (toLowerCase (title n)) q \<or>
                 includes_str (toLowerCase (content n)) q)
            (notes' s)))"

text \<open>
  The effect that runs when \<^verbatim>\<open>notes\<close> or \<^verbatim>\<open>query\<close> has changed (lines 64 to 73).
  \<^verbatim>\<open>ids.includes(selectedId)\<close> is false when \<^verbatim>\<open>selectedId\<close> is \<^verbatim>\<open>null\<close>.
\<close>

definition ids_includes :: "js_string list \<Rightarrow> js_string option \<Rightarrow> bool" where
  "ids_includes ids sel = (case sel of None \<Rightarrow> False | Some i \<Rightarrow> i \<in> set ids)"

definition selectionEffect :: "(js_string \<Rightarrow> js_string) \<Rightarrow> app_state \<Rightarrow> app_state" where
  "selectionEffect toLowerCase s =
     (let ids = map note_id (getFilteredNotes toLowerCase s) in
      case ids of
        [] \<Rightarrow> s\<lparr>selectedId := None\<rparr>
      | i0 # _ \<Rightarrow> if \<not> ids_includes ids (selectedId s) then s\<lparr>selectedId := Some i0\<rparr> else s)"

subsection \<open>The handlers\<close>

text \<open>
  \<^verbatim>\<open>handleAddNote\<close> reads the clock twice: once inside \<^verbatim>\<open>generateId\<close> (\<open>now_id\<close>)
  and once for \<^verbatim>\<open>created\<close>.
\<close>

definition handleAddNote :: "js_string \<Rightarrow> int \<Rightarrow> int \<Rightarrow> app_state \<Rightarrow> app_state" where
  "handleAddNote rnd now_id created s =
     (let newId = generateId rnd now_id;
          note = \<lparr>note_id = newId, title = js ''Untitled Note'', content = js '''',
                  updated = created\<rparr>
      in s\<lparr>notes' := note # notes' s, selectedId := Some newId, addMode := False\<rparr>)"

text \<open>
  \<^verbatim>\<open>{ ...n, [field]: value, updated: Date.now() }\<close>. The clock is read for every note
  that has the id; the model has one clock value for them, and there is one such note
  when the ids are distinct.
\<close>

fun patch :: "field \<Rightarrow> js_string \<Rightarrow> int \<Rightarrow> Note \<Rightarrow> Note" where
  "patch Title v now n = n\<lparr>title := v, updated := now\<rparr>"
| "patch Content v now n = n\<lparr>content := v, updated := now\<rparr>"

definition handleEditNote ::
  "js_string \<Rightarrow> field \<Rightarrow> js_string \<Rightarrow> int \<Rightarrow> app_state \<Rightarrow> app_state" where
  "handleEditNote i f v now s =
     s\<lparr>notes' := map (\<lambda>n. if note_id n = i then patch f v now n else n) (notes' s)\<rparr>"

text \<open>
  \<^verbatim>\<open>handleDeleteNote\<close>; \<open>confirmed\<close> is the answer of \<^verbatim>\<open>window.confirm\<close>.
\<close>

definition handleDeleteNote :: "bool \<Rightarrow> js_string \<Rightarrow> app_state \<Rightarrow> js_error + app_state" where
  "handleDeleteNote confirmed i s =
     (if \<not> confirmed then Inr s
      else
        let idx = findIndex (\<lambda>n. note_id n = i) (notes' s);
            len = int (length (notes' s));
            nextSelected =
              (if len > 1 then
                 (if idx = len - 1 then map_sum (\<lambda>e. e) Some (id_at (notes' s) (idx - 1))
                  else map_sum (\<lambda>e. e) Some (id_at (notes' s) (idx + 1)))
               else Inr None)
        in case nextSelected of
             Inl e \<Rightarrow> Inl e
           | Inr sel \<Rightarrow>
               Inr (s\<lparr>notes' := filter (\<lambda>n. note_id n \<noteq> i) (notes' s), selectedId := sel\<rparr>))"

subsection \<open>One event of the user interface\<close>

text \<open>
  The three events that change the collection. A handler that has called
  \<^verbatim>\<open>setNotes\<close> has made a new array, so React renders again and runs the selection
  effect of lines 64 to 73 on the new state. \<^verbatim>\<open>handleDeleteNote\<close> returns before
  \<^verbatim>\<open>setNotes\<close> when the deletion is not confirmed: then nothing has changed and no
  effect runs.
\<close>

datatype action =
    Create js_string int int
  | Edit js_string field js_string int
  | Delete bool js_string

fun handle :: "action \<Rightarrow> app_state \<Rightarrow> js_error + app_state" where
  "handle (Create rnd now_id created) s = Inr (handleAddNote rnd now_id created s)"
| "handle (Edit i f v now) s = Inr (handleEditNote i f v now s)"
| "handle (Delete confirmed i) s = handleDeleteNote confirmed i s"

fun sets_notes :: "action \<Rightarrow> bool" where
  "sets_notes (Delete confirmed i) = confirmed"
| "sets_notes a = True"

definition dispatch ::
  "(js_string \<Rightarrow> js_string) \<Rightarrow> action \<Rightarrow> app_state \<Rightarrow> js_error + app_state" where
  "dispatch toLowerCase a s =
     (case handle a s of
        Inl e \<Rightarrow> Inl e
      | Inr s' \<Rightarrow> Inr (if sets_notes a then selectionEffect toLowerCase s' else s'))"

fun run ::
  "(js_string \<Rightarrow> js_string) \<Rightarrow> action list \<Rightarrow> app_state \<Rightarrow> js_error + app_state" where
  "run toLowerCase [] s = Inr s"
| "run toLowerCase (a # as) s =
     (case dispatch toLowerCase a s of Inl e \<Rightarrow> Inl e | Inr s' \<Rightarrow> run toLowerCase as s')"

text \<open>The ids that the \<^verbatim>\<open>Create\<close> events of a run generate, in the order of the events.\<close>

fun created_ids :: "action list \<Rightarrow> js_string list" where
  "created_ids [] = []"
| "created_ids (Create rnd now_id created # as) = generateId rnd now_id # created_ids as"
| "created_ids (a # as) = created_ids as"

text \<open>What one event does to the stored collection.\<close>

fun stored_after :: "action \<Rightarrow> Note list \<Rightarrow> Note list" where
  "stored_after (Create rnd now_id created) ns =
     \<lparr>note_id = generateId rnd now_id, title = js ''Untitled Note'', content = js '''',
      updated = created\<rparr> # ns"
| "stored_after (Edit i f v now) ns =
     map (\<lambda>n. if note_id n = i then patch f v now n else n) ns"
| "stored_after (Delete confirmed i) ns =
     (if confirmed then filter (\<lambda>n. note_id n \<noteq> i) ns else ns)"

subsection \<open>Persistence: \<^verbatim>\<open>JSON.stringify\<close> and \<^verbatim>\<open>JSON.parse\<close> on the array of notes\<close>

text \<open>
  \<^verbatim>\<open>JSON.stringify(notes)\<close> writes the array without white space; every note is an
  object whose keys stand in the order \<^verbatim>\<open>id\<close>, \<^verbatim>\<open>title\<close>, \<^verbatim>\<open>content\<close>,
  \<^verbatim>\<open>updated\<close> in which \<^verbatim>\<open>handleAddNote\<close> creates them (the spread in
  \<^verbatim>\<open>handleEditNote\<close> keeps that order). A string is quoted as ECMA-262 prescribes
  (QuoteJSONString): the two-character escapes, \<^verbatim>\<open>\uXXXX\<close> for the other code units
  below \<^verbatim>\<open>0x20\<close> and for a surrogate that is not part of a pair, and every other code
  unit as it is. An integer is written in decimal. The code unit \<^verbatim>\<open>0x5C\<close> is the
  backslash and \<^verbatim>\<open>0x22\<close> the double quote.
\<close>

definition hex4 :: "nat \<Rightarrow> js_string" where
  "hex4 k = [digit_char (k div 4096 mod 16), digit_char (k div 256 mod 16),
             digit_char (k div 16 mod 16), digit_char (k mod 16)]"

definition UnicodeEscape :: "nat \<Rightarrow> js_string" where
  "UnicodeEscape c = 0x5C # js ''u'' @ hex4 c"

definition QuoteJSONChar :: "nat \<Rightarrow> js_string" where
  "QuoteJSONChar c =
     (if c = 0x08 then 0x5C # js ''b''
      else if c = 0x09 then 0x5C # js ''t''
      else if c = 0x0A then 0x5C # js ''n''
      else if c = 0x0C then 0x5C # js ''f''
      else if c = 0x0D then 0x5C # js ''r''
      else if c = 0x22 then [0x5C, 0x22]
      else if c = 0x5C then [0x5C, 0x5C]
      else if c < 0x20 then UnicodeEscape c
      else [c])"

definition is_leading_surrogate :: "nat \<Rightarrow> bool" where
  "is_leading_surrogate c = (0xD800 \<le> c \<and> c \<le> 0xDBFF)"

definition is_trailing_surrogate :: "nat \<Rightarrow> bool" where
  "is_trailing_surrogate c = (0xDC00 \<le> c \<and> c \<le> 0xDFFF)"

text \<open>
  The string is read code point by code point: a leading surrogate that a trailing one
  follows is a pair, written as it is; any other surrogate is written as an escape.
\<close>

fun quote_units :: "js_string \<Rightarrow> js_string" where
  "quote_units [] = []"
| "quote_units (c # cs) =
     (if is_leading_surrogate c then
        (case cs of
           [] \<Rightarrow> UnicodeEscape c
         | d # ds \<Rightarrow>
             if is_trailing_surrogate d then c # d # quote_units ds
             else UnicodeEscape c @ quote_units cs)
      else if is_trailing_surrogate c then UnicodeEscape c @ quote_units cs
      else QuoteJSONChar c @ quote_units cs)"

definition QuoteJSONString :: "js_string \<Rightarrow> js_string" where
  "QuoteJSONString s = 0x22 # quote_units s @ [0x22]"

fun join :: "js_string \<Rightarrow> js_string list \<Rightarrow> js_string" where
  "join sep [] = []"
| "join sep [x] = x"
| "join sep (x # y # ys) = x @ sep @ join sep (y # ys)"

definition stringify_note :: "Note \<Rightarrow> js_string" where
  "stringify_note n =
     js ''{'' @ QuoteJSONString (js ''id'') @ js '':'' @ QuoteJSONString (note_id n) @
     js '','' @ QuoteJSONString (js ''title'') @ js '':'' @ QuoteJSONString (title n) @
     js '','' @ QuoteJSONString (js ''content'') @ js '':'' @ QuoteJSONString (content n) @
     js '','' @ QuoteJSONString (js ''updated'') @ js '':'' @ toString 10 (updated n) @
     js ''}''"

definition JSON_stringify :: "Note list \<Rightarrow> js_string" where
  "JSON_stringify ns = js ''['' @ join (js '','') (map stringify_note ns) @ js '']''"

text \<open>
  The text that \<^verbatim>\<open>JSON.stringify\<close> writes after the first element of an array: the
  other elements, a comma before each, and the closing bracket.
\<close>

fun elements :: "Note list \<Rightarrow> js_string" where
  "elements [] = js '']''"
| "elements (n # ns) = js '','' @ stringify_note n @ elements ns"

text \<open>
  \<^verbatim>\<open>JSON.parse\<close> is modelled on the texts of that format: an array of objects with the
  four keys in that order, no white space, string values with every escape of JSON and
  integer values without fraction or exponent. The result \<open>None\<close> stands for every
  other text: the texts on which \<^verbatim>\<open>JSON.parse\<close> throws a \<^verbatim>\<open>SyntaxError\<close>, and the
  JSON texts in another layout or whose value is no list of notes of this model.
\<close>

definition hex_digit :: "nat \<Rightarrow> nat option" where
  "hex_digit c =
     (if 48 \<le> c \<and> c \<le> 57 then Some (c - 48)
      else if 97 \<le> c \<and> c \<le> 102 then Some (c - 87)
      else if 65 \<le> c \<and> c \<le> 70 then Some (c - 55)
      else None)"

definition unescape_u :: "nat \<Rightarrow> nat \<Rightarrow> nat \<Rightarrow> nat \<Rightarrow> nat option" where
  "unescape_u h1 h2 h3 h4 =
     (case (hex_digit h1, hex_digit h2, hex_digit h3, hex_digit h4) of
        (Some a, Some b, Some c, Some d) \<Rightarrow> Some (((a * 16 + b) * 16 + c) * 16 + d)
      | _ \<Rightarrow> None)"

definition unescape :: "nat \<Rightarrow> nat option" where
  "unescape e =
     (if e = 0x22 then Some 0x22
      else if e = 0x5C then Some 0x5C
      else if [e] = js ''/'' then Some 0x2F
      else if [e] = js ''b'' then Some 0x08
      else if [e] = js ''f'' then Some 0x0C
      else if [e] = js ''n'' then Some 0x0A
      else if [e] = js ''r'' then Some 0x0D
      else if [e] = js ''t'' then Some 0x09
      else None)"

definition cons_result ::
  "nat \<Rightarrow> (js_string \<times> js_string) option \<Rightarrow> (js_string \<times> js_string) option" where
  "cons_result c r = map_option (\<lambda>(s, rest). (c # s, rest)) r"

text \<open>
  The code units of a string up to its closing quote; the result is the string and the
  input that follows the quote.
\<close>

fun read_chars :: "js_string \<Rightarrow> (js_string \<times> js_string) option" where
  "read_chars [] = None"
| "read_chars (c # cs) =
     (if c = 0x22 then Some ([], cs)
      else if c = 0x5C then
        (case cs of
           [] \<Rightarrow> None
         | e # es \<Rightarrow>
             if [e] = js ''u'' then
               (case es of
                  h1 # h2 # h3 # h4 # es' \<Rightarrow>
                    (case unescape_u h1 h2 h3 h4 of
                       None \<Rightarrow> None
                     | Some ch \<Rightarrow> cons_result ch (read_chars es'))
                | _ \<Rightarrow> None)
             else
               (case unescape e of
                  None \<Rightarrow> None
                | Some ch \<Rightarrow> cons_result ch (read_chars es)))
      else if c < 0x20 then None
      else cons_result c (read_chars cs))"

definition read_string :: "js_string \<Rightarrow> (js_string \<times> js_string) option" where
  "read_string inp =
     (case inp of [] \<Rightarrow> None | c # cs \<Rightarrow> if c = 0x22 then read_chars cs else None)"

definition is_digit :: "nat \<Rightarrow> bool" where
  "is_digit c = (48 \<le> c \<and> c \<le> 57)"

definition undigit :: "nat \<Rightarrow> nat" where
  "undigit c = (if c < 58 then c - 48 else c - 87)"

definition digits_value :: "nat \<Rightarrow> js_string \<Rightarrow> nat" where
  "digits_value b ds = foldl (\<lambda>acc c. acc * b + undigit c) 0 ds"

text \<open>A JSON number without fraction and exponent; a leading zero is a syntax error.\<close>

definition read_nat :: "js_string \<Rightarrow> (nat \<times> js_string) option" where
  "read_nat inp =
     (let ds = takeWhile is_digit inp in
      if ds = [] \<or> (length ds > 1 \<and> hd ds = 48) then None
      else Some (digits_value 10 ds, dropWhile is_digit inp))"

definition read_int :: "js_string \<Rightarrow> (int \<times> js_string) option" where
  "read_int inp =
     (case inp of
        [] \<Rightarrow> None
      | c # cs \<Rightarrow>
          if c = 45 then map_option (\<lambda>(n, rest). (- int n, rest)) (read_nat cs)
          else map_option (\<lambda>(n, rest). (int n, rest)) (read_nat inp))"

definition expect :: "js_string \<Rightarrow> js_string \<Rightarrow> js_string option" where
  "expect lit inp = (if prefix lit inp then Some (drop (length lit) inp) else None)"

definition read_note :: "js_string \<Rightarrow> (Note \<times> js_string) option" where
  "read_note inp =
     Option.bind (expect (js ''{'' @ QuoteJSONString (js ''id'') @ js '':'') inp) (\<lambda>r1.
     Option.bind (read_string r1) (\<lambda>(i, r2).
     Option.bind (expect (js '','' @ QuoteJSONString (js ''title'') @ js '':'') r2) (\<lambda>r3.
     Option.bind (read_string r3) (\<lambda>(t, r4).
     Option.bind (expect (js '','' @ QuoteJSONString (js ''content'') @ js '':'') r4) (\<lambda>r5.
     Option.bind (read_string r5) (\<lambda>(c, r6).
     Option.bind (expect (js '','' @ QuoteJSONString (js ''updated'') @ js '':'') r6) (\<lambda>r7.
     Option.bind (read_int r7) (\<lambda>(u, r8).
     Option.bind (expect (js ''}'') r8) (\<lambda>r9.
       Some (\<lparr>note_id = i, title = t, content = c, updated = u\<rparr>, r9))))))))))"

text \<open>
  The elements after the first one are read in a loop over the input. Every reader
  consumes input, which is why the loop ends.
\<close>

lemma cons_result_Some:
  "cons_result c r = Some (s, rest) \<longleftrightarrow> (\<exists>s'. r = Some (s', rest) \<and> s = c # s')"
  by (cases r) (auto simp: cons_result_def)

lemma read_chars_shorter: "read_chars inp = Some (s, rest) \<Longrightarrow> length rest < length inp"
proof (induction inp arbitrary: s rest rule: length_induct)
  case (1 inp)
  show ?case
  proof (cases inp)
    case Nil
    with 1 show ?thesis by simp
  next
    case (Cons c cs)
    have shorter: "length rest < length inp"
      if "read_chars ys = Some (s', rest)" "length ys < length inp" for ys s'
      using 1(1) that by (meson less_trans)
    from 1(2) Cons show ?thesis
      by (auto simp: cons_result_Some split: if_splits list.splits option.splits
          dest!: shorter)
  qed
qed

lemma read_string_shorter: "read_string inp = Some (s, rest) \<Longrightarrow> length rest < length inp"
  by (auto simp: read_string_def split: list.splits if_splits dest!: read_chars_shorter)

lemma read_nat_le: "read_nat inp = Some (n, rest) \<Longrightarrow> length rest \<le> length inp"
  by (auto simp: read_nat_def Let_def length_dropWhile_le split: if_splits)

lemma read_int_le: "read_int inp = Some (n, rest) \<Longrightarrow> length rest \<le> length inp"
  by (auto simp: read_int_def split: list.splits if_splits dest!: read_nat_le)

lemma expect_le: "expect lit inp = Some rest \<Longrightarrow> length rest \<le> length inp"
  by (auto simp: expect_def split: if_splits)

lemma read_note_shorter:
  assumes "read_note inp = Some (n, rest)"
  shows "length rest < length inp"
proof -
  from assms obtain r1 i r2 r3 t r4 r5 c r6 r7 u r8 where
    "expect (js ''{'' @ QuoteJSONString (js ''id'') @ js '':'') inp = Some r1"
    "read_string r1 = Some (i, r2)"
    "expect (js '','' @ QuoteJSONString (js ''title'') @ js '':'') r2 = Some r3"
    "read_string r3 = Some (t, r4)"
    "expect (js '','' @ QuoteJSONString (js ''content'') @ js '':'') r4 = Some r5"
    "read_string r5 = Some (c, r6)"
    "expect (js '','' @ QuoteJSONString (js ''updated'') @ js '':'') r6 = Some r7"
    "read_int r7 = Some (u, r8)"
    "expect (js ''}'') r8 = Some rest"
    unfolding read_note_def by (auto simp: Option.bind_eq_Some_conv)
  then have "length r1 \<le> length inp" "length r2 < length r1" "length r3 \<le> length r2"
    "length r4 < length r3" "length r5 \<le> length r4" "length r6 < length r5"
    "length r7 \<le> length r6" "length r8 \<le> length r7" "length rest \<le> length r8"
    by (auto dest: expect_le read_string_shorter read_int_le)
  then show ?thesis by linarith
qed

function read_elements :: "js_string \<Rightarrow> (Note list \<times> js_string) option" where
  "read_elements inp =
     (case inp of
        [] \<Rightarrow> None
      | c # cs \<Rightarrow>
          if [c] = js '']'' then Some ([], cs)
          else if [c] = js '','' then
            (case read_note cs of
               None \<Rightarrow> None
             | Some (n, rest) \<Rightarrow>
                 (case read_elements rest of
                    None \<Rightarrow> None
                  | Some (ns, rest') \<Rightarrow> Some (n # ns, rest')))
          else None)"
  by pat_completeness auto
termination
proof (relation "measure length")
  show "wf (measure length)" by simp
next
  fix inp :: js_string and c cs x n rest
  assume "inp = c # cs" "read_note cs = Some x" "(n, rest) = x"
  then have "length rest < length cs" by (auto dest: read_note_shorter)
  with \<open>inp = c # cs\<close> show "(rest, inp) \<in> measure length" by simp
qed

declare read_elements.simps [simp del]

definition read_array :: "js_string \<Rightarrow> (Note list \<times> js_string) option" where
  "read_array inp =
     (case inp of
        [] \<Rightarrow> None
      | c # cs \<Rightarrow>
          if [c] \<noteq> js ''['' then None
          else
            (case cs of
               [] \<Rightarrow> None
             | d # ds \<Rightarrow>
                 if [d] = js '']'' then Some ([], ds)
                 else
                   (case read_note cs of
                      None \<Rightarrow> None
                    | Some (n, rest) \<Rightarrow>
                        (case read_elements rest of
                           None \<Rightarrow> None
                         | Some (ns, rest') \<Rightarrow> Some (n # ns, rest')))))"

definition JSON_parse :: "js_string \<Rightarrow> Note list option" where
  "JSON_parse inp =
     (case read_array inp of
        None \<Rightarrow> None
      | Some (ns, rest) \<Rightarrow> if rest = [] then Some ns else None)"

text \<open>
  \<^verbatim>\<open>localStorage\<close> maps keys to strings. The effect of lines 50 to 52 overwrites the
  entry \<^verbatim>\<open>notes:v1\<close>; the initialiser of lines 30 to 35 reads it, and takes a missing
  entry and the empty string (\<^verbatim>\<open>if (saved)\<close>) for the empty collection.
\<close>

type_synonym storage = "js_string \<rightharpoonup> js_string"

definition persist :: "Note list \<Rightarrow> storage \<Rightarrow> storage" where
  "persist ns st = st(js ''notes:v1'' \<mapsto> JSON_stringify ns)"

definition loadAll :: "storage \<Rightarrow> Note list option" where
  "loadAll st =
     (case st (js ''notes:v1'') of
        None \<Rightarrow> Some []
      | Some saved \<Rightarrow> if saved = [] then Some [] else JSON_parse saved)"

subsection \<open>The words of the specification\<close>

text \<open>
  ``Contains the query as a substring, compared case-insensitively'': some substring of
  the text and the query are equal, code unit for code unit, once every code unit is
  replaced by its lower case. \<open>lower_case\<close> maps a code unit to its lower case.
\<close>

definition substrings :: "js_string \<Rightarrow> js_string list" where
  "substrings s = concat (map prefixes (suffixes s))"

definition contains_ignoring_case :: "(nat \<Rightarrow> nat) \<Rightarrow> js_string \<Rightarrow> js_string \<Rightarrow> bool" where
  "contains_ignoring_case lower_case text q =
     (\<exists>w \<in> set (substrings text). map lower_case w = map lower_case q)"

subsection \<open>States used as examples\<close>

definition empty_state :: app_state where
  "empty_state =
     \<lparr>notes' = [], selectedId = None, query = js '''', sidebarOpen = True, addMode = False\<rparr>"

text \<open>The state after the first note has been created.\<close>

definition one_note :: app_state where
  "one_note = handleAddNote (js ''4fzzzxjyl'') 1700000000000 1700000000000 empty_state"

text \<open>Three notes, the third one selected, and a query typed or not.\<close>

definition three :: "Note list" where
  "three =
     [\<lparr>note_id = js ''n1'', title = js ''Alpha'', content = js ''x'', updated = 1700000000010\<rparr>,
      \<lparr>note_id = js ''n2'', title = js ''Beta'', content = js ''aLp'', updated = 1700000000020\<rparr>,
      \<lparr>note_id = js ''n3'', title = js ''Gamma'', content = js ''y'', updated = 1700000000030\<rparr>]"

definition three_notes :: app_state where
  "three_notes =
     \<lparr>notes' = three, selectedId = Some (js ''n3''), query = js ''ALP'', sidebarOpen = True,
      addMode = False\<rparr>"

definition three_notes_no_query :: app_state where
  "three_notes_no_query = three_notes\<lparr>query := js ''''\<rparr>"

definition three_notes_gam :: app_state where
  "three_notes_gam = three_notes\<lparr>query := js ''Gam''\<rparr>"

text \<open>
  Four notes of which two have the same id, as after the creation of \<open>C4\<close> below; the
  first one is selected and no query is typed.
\<close>

definition repeated_id :: app_state where
  "repeated_id =
     \<lparr>notes' =
        [\<lparr>note_id = js ''n1'', title = js ''A'', content = js '''', updated = 1700000000040\<rparr>,
         \<lparr>note_id = js ''n1'', title = js ''B'', content = js '''', updated = 1700000000030\<rparr>,
         \<lparr>note_id = js ''n2'', title = js ''C'', content = js '''', updated = 1700000000010\<rparr>,
         \<lparr>note_id = js ''n3'', title = js ''D'', content = js '''', updated = 1700000000020\<rparr>],
      selectedId = Some (js ''n1''), query = js '''', sidebarOpen = True, addMode = False\<rparr>"

text \<open>One note with the title \<open>kosmos\<close>, and the query \<open>kos\<close>.\<close>

definition kosmos_state :: app_state where
  "kosmos_state =
     \<lparr>notes' =
        [\<lparr>note_id = js ''n1'', title = kosmos, content = js '''', updated = 1700000000010\<rparr>],
      selectedId = None, query = kos, sidebarOpen = True, addMode = False\<rparr>"

section \<open>Properties\<close>

subsection \<open>Creating a note\<close>

text \<open>
  C10. A note that has just been created has the title \<open>Untitled Note\<close>, an empty content
  and the creation time as its \<open>updated\<close>; it is put in front of the collection, and no
  field of it is read from the state: the right-hand side mentions no note of \<open>s\<close>.
\<close>

theorem handleAddNote_new_note:
  "notes' (handleAddNote rnd now_id created s) =
     \<lparr>note_id = generateId rnd now_id, title = js ''Untitled Note'', content = js '''',
      updated = created\<rparr> # notes' s"
  by (simp add: handleAddNote_def Let_def)

subsection \<open>The sorted view\<close>

lemma mset_insert_cmp: "mset (insert_cmp cmp x ys) = add_mset x (mset ys)"
  by (induction ys) auto

lemma mset_sort_cmp: "mset (sort_cmp cmp xs) = mset xs"
  by (induction xs) (auto simp: sort_cmp_def mset_insert_cmp)

lemma set_insert_cmp: "set (insert_cmp cmp x ys) = insert x (set ys)"
  by (induction ys) auto

lemma set_sort_cmp: "set (sort_cmp cmp xs) = set xs"
  by (induction xs) (auto simp: sort_cmp_def set_insert_cmp)

lemma sorted_insert_cmp:
  "sorted_wrt (\<lambda>a b. updated b \<le> updated a) ys \<Longrightarrow>
   sorted_wrt (\<lambda>a b. updated b \<le> updated a) (insert_cmp (\<lambda>a b. updated b - updated a) x ys)"
  by (induction ys) (auto simp: set_insert_cmp)

lemma sorted_sort_cmp:
  "sorted_wrt (\<lambda>a b. updated b \<le> updated a) (sort_cmp (\<lambda>a b. updated b - updated a) xs)"
  by (induction xs) (auto simp: sort_cmp_def sorted_insert_cmp)

text \<open>
  C6. With the empty query the view holds exactly the notes of the collection, each as
  often as the collection does, and every note of the view is at least as recent as the
  notes after it.
\<close>

theorem getFilteredNotes_empty_query:
  "mset (getFilteredNotes toLowerCase (s\<lparr>query := js ''''\<rparr>)) = mset (notes' s) \<and>
   sorted_wrt (\<lambda>a b. updated b \<le> updated a)
     (getFilteredNotes toLowerCase (s\<lparr>query := js ''''\<rparr>))"
  by (simp add: getFilteredNotes_def js_def mset_sort_cmp sorted_sort_cmp)

subsection \<open>The selection effect\<close>

lemma ids_includes_iff: "ids_includes ids sel \<longleftrightarrow> sel \<in> Some ` set ids"
  by (cases sel) (auto simp: ids_includes_def)

text \<open>
  C2. When the selected id is not the id of a note of the filtered view, the effect
  selects the first note of the view, or nothing when the view is empty; when it is the
  id of a note of the view, the effect leaves the selection as it is.
\<close>

theorem selectionEffect_fallback:
  "(selectedId s \<notin> Some ` set (map note_id (getFilteredNotes toLowerCase s)) \<longrightarrow>
      selectedId (selectionEffect toLowerCase s) =
        (case getFilteredNotes toLowerCase s of [] \<Rightarrow> None | n # _ \<Rightarrow> Some (note_id n))) \<and>
   (selectedId s \<in> Some ` set (map note_id (getFilteredNotes toLowerCase s)) \<longrightarrow>
      selectedId (selectionEffect toLowerCase s) = selectedId s)"
  by (cases "getFilteredNotes toLowerCase s") (auto simp: selectionEffect_def ids_includes_iff)

lemma three_notes_view:
  "getFilteredNotes toLowerCase_latin1 three_notes = [three ! 1, three ! 0]"
  by (simp add: getFilteredNotes_def three_notes_def three_def sort_cmp_def js_def
      toLowerCase_latin1_def lower_latin1_def)

theorem selectionEffect_fallback_witness:
  "selectedId three_notes
     \<notin> Some ` set (map note_id (getFilteredNotes toLowerCase_latin1 three_notes)) \<and>
   selectedId (selectionEffect toLowerCase_latin1 three_notes) = Some (js ''n2'') \<and>
   selectedId (three_notes\<lparr>selectedId := Some (js ''n1'')\<rparr>)
     \<in> Some ` set (map note_id
          (getFilteredNotes toLowerCase_latin1 (three_notes\<lparr>selectedId := Some (js ''n1'')\<rparr>))) \<and>
   selectedId (selectionEffect toLowerCase_latin1 (three_notes\<lparr>selectedId := Some (js ''n1'')\<rparr>))
     = Some (js ''n1'')"
proof -
  let ?t = "three_notes\<lparr>selectedId := Some (js ''n1'')\<rparr>"
  let ?view = "getFilteredNotes toLowerCase_latin1"
  have same: "?view ?t = ?view three_notes"
    by (simp add: getFilteredNotes_def)
  have ids: "map note_id (?view three_notes) = [js ''n2'', js ''n1'']"
    by (simp add: three_notes_view three_def)
  have absent: "selectedId three_notes \<notin> Some ` set (map note_id (?view three_notes))"
    unfolding ids by (simp add: three_notes_def js_def)
  have present: "selectedId ?t \<in> Some ` set (map note_id (?view ?t))"
    unfolding same ids by simp
  have "selectedId (selectionEffect toLowerCase_latin1 three_notes) =
      (case ?view three_notes of [] \<Rightarrow> None | n # _ \<Rightarrow> Some (note_id n))"
    using selectionEffect_fallback [of three_notes toLowerCase_latin1] absent by blast
  moreover have "(case ?view three_notes of [] \<Rightarrow> None | n # _ \<Rightarrow> Some (note_id n))
      = Some (js ''n2'')"
    by (simp add: three_notes_view three_def)
  moreover have "selectedId (selectionEffect toLowerCase_latin1 ?t) = selectedId ?t"
    using selectionEffect_fallback [of ?t toLowerCase_latin1] present by blast
  ultimately show ?thesis
    using absent present by simp
qed

subsection \<open>Editing a note\<close>

text \<open>
  C8. \<open>handleEditNote\<close> keeps the length and the order of the collection. A note with
  another id is left as it is; in a note with the given id the named field becomes the
  value and \<open>updated\<close> the clock value, and \<open>id\<close> and the other text field stay.
\<close>

theorem handleEditNote_patch:
  assumes "k < length (notes' s)"
  shows "length (notes' (handleEditNote i f v now s)) = length (notes' s) \<and>
    (let n = notes' s ! k; n' = notes' (handleEditNote i f v now s) ! k in
       (note_id n \<noteq> i \<longrightarrow> n' = n) \<and>
       (note_id n = i \<longrightarrow>
          n' = (case f of Title \<Rightarrow> n\<lparr>title := v, updated := now\<rparr>
                        | Content \<Rightarrow> n\<lparr>content := v, updated := now\<rparr>)))"
  using assms by (cases f) (auto simp: handleEditNote_def Let_def)

theorem handleEditNote_patch_witness:
  "1 < length (notes' three_notes) \<and>
   notes' (handleEditNote (js ''n2'') Content (js ''new text'') 1700000000040 three_notes) ! 1 =
     \<lparr>note_id = js ''n2'', title = js ''Beta'', content = js ''new text'',
      updated = 1700000000040\<rparr> \<and>
   notes' (handleEditNote (js ''n1'') Content (js ''new text'') 1700000000040 three_notes) ! 1 =
     \<lparr>note_id = js ''n2'', title = js ''Beta'', content = js ''aLp'',
      updated = 1700000000020\<rparr>"
proof -
  have k: "1 < length (notes' three_notes)" by (simp add: three_notes_def three_def)
  have n: "notes' three_notes ! Suc 0 =
      \<lparr>note_id = js ''n2'', title = js ''Beta'', content = js ''aLp'',
       updated = 1700000000020\<rparr>"
    by (simp add: three_notes_def three_def)
  have ne: "js ''n2'' \<noteq> js ''n1''" by (simp add: js_def)
  from handleEditNote_patch [OF k, of "js ''n2''" Content "js ''new text''" 1700000000040]
  have "notes' (handleEditNote (js ''n2'') Content (js ''new text'') 1700000000040 three_notes) ! 1 =
     \<lparr>note_id = js ''n2'', title = js ''Beta'', content = js ''new text'',
      updated = 1700000000040\<rparr>"
    by (simp add: n Let_def)
  moreover
  from handleEditNote_patch [OF k, of "js ''n1''" Content "js ''new text''" 1700000000040]
  have "notes' (handleEditNote (js ''n1'') Content (js ''new text'') 1700000000040 three_notes) ! 1 =
     \<lparr>note_id = js ''n2'', title = js ''Beta'', content = js ''aLp'',
      updated = 1700000000020\<rparr>"
    by (simp add: n ne Let_def)
  ultimately show ?thesis using k by simp
qed

subsection \<open>Editing and the clock\<close>

text \<open>
  C3, as the code has it. An edit of the title or of the content sets \<open>updated\<close> of the
  note with the given id to the value the clock shows at the edit, and keeps its \<open>id\<close>.
  The new \<open>updated\<close> is later than the old one when the clock shows a later value than
  the old one.
\<close>

theorem handleEditNote_stamps_clock:
  assumes "k < length (notes' s)" and "note_id (notes' s ! k) = i"
  shows "updated (notes' (handleEditNote i f v now s) ! k) = now \<and>
         note_id (notes' (handleEditNote i f v now s) ! k) = note_id (notes' s ! k) \<and>
         (updated (notes' s ! k) < now \<longrightarrow>
            updated (notes' s ! k) < updated (notes' (handleEditNote i f v now s) ! k))"
  using assms by (cases f) (simp_all add: handleEditNote_def)

theorem handleEditNote_stamps_clock_witness:
  "1 < length (notes' three_notes) \<and> note_id (notes' three_notes ! 1) = js ''n2'' \<and>
   updated (notes' three_notes ! 1) = 1700000000020 \<and>
   updated (notes' (handleEditNote (js ''n2'') Title (js ''Beta 2'') 1700000000040 three_notes) ! 1)
     = 1700000000040 \<and>
   note_id (notes' (handleEditNote (js ''n2'') Title (js ''Beta 2'') 1700000000040 three_notes) ! 1)
     = js ''n2''"
proof -
  have k: "1 < length (notes' three_notes)" by (simp add: three_notes_def three_def)
  have i: "note_id (notes' three_notes ! 1) = js ''n2''" by (simp add: three_notes_def three_def)
  have u: "updated (notes' three_notes ! 1) = 1700000000020"
    by (simp add: three_notes_def three_def)
  from handleEditNote_stamps_clock [OF k i, of Title "js ''Beta 2''" 1700000000040] k i u
  show ?thesis by simp
qed

text \<open>
  The claim as the specification words it fails when the clock shows, at the edit, the
  value it showed when the note was stamped last: of two edits within the same
  millisecond the second one leaves \<open>updated\<close> as it is.
\<close>

theorem second_edit_in_same_millisecond_not_later:
  "\<not> updated (notes' (handleEditNote (js ''n2'') Title (js ''B'') 1700000000040 three_notes) ! 1)
     < updated (notes'
         (handleEditNote (js ''n2'') Title (js ''Be'') 1700000000040
           (handleEditNote (js ''n2'') Title (js ''B'') 1700000000040 three_notes)) ! 1)"
  by (simp add: handleEditNote_def three_notes_def three_def)

subsection \<open>Deleting a note\<close>

lemma findIndex_range: "- 1 \<le> findIndex P xs \<and> findIndex P xs < int (length xs)"
  by (induction xs) (auto simp: Let_def)

lemma findIndex_found:
  "\<exists>x\<in>set xs. P x \<Longrightarrow> 0 \<le> findIndex P xs \<and> P (xs ! nat (findIndex P xs))"
proof (induction xs)
  case Nil
  then show ?case by simp
next
  case (Cons x xs)
  show ?case
  proof (cases "P x")
    case True
    then show ?thesis by simp
  next
    case False
    with Cons.prems have "\<exists>y\<in>set xs. P y" by simp
    from Cons.IH [OF this] False show ?thesis
      by (simp add: Let_def nat_add_distrib)
  qed
qed

lemma findIndex_first: "int m < findIndex P xs \<Longrightarrow> \<not> P (xs ! m)"
proof (induction xs arbitrary: m)
  case Nil
  then show ?case by simp
next
  case (Cons x xs)
  show ?case
  proof (cases m)
    case 0
    with Cons.prems show ?thesis by (auto simp: Let_def split: if_splits)
  next
    case (Suc m')
    with Cons.prems have "int m' < findIndex P xs"
      by (auto simp: Let_def split: if_splits)
    with Cons.IH Suc show ?thesis by simp
  qed
qed

text \<open>The two array reads of \<open>handleDeleteNote\<close> are inside the array: it never throws.\<close>

lemma handleDeleteNote_total: "\<exists>s'. handleDeleteNote c i s = Inr s'"
proof -
  have "- 1 \<le> findIndex (\<lambda>n. note_id n = i) (notes' s) \<and>
      findIndex (\<lambda>n. note_id n = i) (notes' s) < int (length (notes' s))"
    by (rule findIndex_range)
  then show ?thesis
    by (auto simp: handleDeleteNote_def Let_def id_at_def)
qed

lemma handleDeleteNote_notes:
  "handleDeleteNote c i s = Inr s' \<Longrightarrow>
   notes' s' = (if c then filter (\<lambda>n. note_id n \<noteq> i) (notes' s) else notes' s)"
  by (auto simp: handleDeleteNote_def Let_def split: if_splits sum.splits)

text \<open>
  What the handler writes: the notes with another id, and as the selection the id of
  the note after the first note \<open>k\<close> with the id, or of the note before it when \<open>k\<close> is
  the last index.
\<close>

lemma handleDeleteNote_pick:
  assumes mem: "i \<in> set (map note_id (notes' s))"
  shows "\<exists>k. k < length (notes' s) \<and> note_id (notes' s ! k) = i \<and>
           (\<forall>m<k. note_id (notes' s ! m) \<noteq> i) \<and>
           handleDeleteNote True i s =
             Inr (s\<lparr>notes' := filter (\<lambda>n. note_id n \<noteq> i) (notes' s),
                    selectedId :=
                      (if 1 < length (notes' s)
                       then Some (note_id (notes' s !
                              (if k + 1 = length (notes' s) then k - 1 else k + 1)))
                       else None)\<rparr>)"
proof -
  let ?ns = "notes' s"
  let ?idx = "findIndex (\<lambda>n. note_id n = i) ?ns"
  let ?k = "nat ?idx"
  from mem have ex: "\<exists>x\<in>set ?ns. note_id x = i" by auto
  from findIndex_found [of ?ns "\<lambda>n. note_id n = i", OF ex]
  have nonneg: "0 \<le> ?idx" and hit: "note_id (?ns ! ?k) = i" by simp_all
  from findIndex_range [of "\<lambda>n. note_id n = i" ?ns] nonneg
  have klt: "?k < length ?ns" by simp
  have idx: "?idx = int ?k" using nonneg by simp
  have first: "\<forall>m<?k. note_id (?ns ! m) \<noteq> i"
  proof (intro allI impI)
    fix m assume "m < ?k"
    then have "int m < ?idx" using idx by linarith
    then show "note_id (?ns ! m) \<noteq> i" by (rule findIndex_first)
  qed
  have hwrite: "handleDeleteNote True i s =
      Inr (s\<lparr>notes' := filter (\<lambda>n. note_id n \<noteq> i) ?ns,
             selectedId :=
               (if 1 < length ?ns
                then Some (note_id (?ns ! (if ?k + 1 = length ?ns then ?k - 1 else ?k + 1)))
                else None)\<rparr>)"
  proof (cases "1 < length ?ns")
    case False
    then show ?thesis by (simp add: handleDeleteNote_def Let_def)
  next
    case long: True
    show ?thesis
    proof (cases "?k + 1 = length ?ns")
      case True
      have "nat (?idx - 1) = ?k - 1" "0 \<le> ?idx - 1" "?idx - 1 < int (length ?ns)"
        using long True idx by linarith+
      then have "id_at ?ns (?idx - 1) = Inr (note_id (?ns ! (?k - 1)))"
        by (simp only: id_at_def simp_thms if_True)
      moreover have "?idx = int (length ?ns) - 1" using True idx by linarith
      ultimately show ?thesis
        using long True by (simp add: handleDeleteNote_def Let_def)
    next
      case False
      have "nat (?idx + 1) = ?k + 1" "0 \<le> ?idx + 1" "?idx + 1 < int (length ?ns)"
        using False klt idx by linarith+
      then have "id_at ?ns (?idx + 1) = Inr (note_id (?ns ! (?k + 1)))"
        by (simp only: id_at_def simp_thms if_True)
      moreover have "?idx \<noteq> int (length ?ns) - 1" using False klt idx by linarith
      ultimately show ?thesis
        using long False by (simp add: handleDeleteNote_def Let_def)
    qed
  qed
  from klt hit first hwrite show ?thesis by blast
qed

text \<open>What the effect leaves as the selection, and that it leaves the notes and the query.\<close>

lemma selectedId_selectionEffect:
  "selectedId (selectionEffect toLowerCase s) =
     (case getFilteredNotes toLowerCase s of
        [] \<Rightarrow> None
      | n # _ \<Rightarrow>
          if selectedId s \<in> Some ` set (map note_id (getFilteredNotes toLowerCase s))
          then selectedId s else Some (note_id n))"
  by (cases "getFilteredNotes toLowerCase s") (auto simp: selectionEffect_def ids_includes_iff)

lemma notes_selectionEffect: "notes' (selectionEffect toLowerCase s) = notes' s"
  by (simp add: selectionEffect_def Let_def split: list.splits)

lemma query_selectionEffect: "query (selectionEffect toLowerCase s) = query s"
  by (simp add: selectionEffect_def Let_def split: list.splits)

lemma getFilteredNotes_cong:
  "notes' t = notes' s \<Longrightarrow> query t = query s \<Longrightarrow>
   getFilteredNotes toLowerCase t = getFilteredNotes toLowerCase s"
  by (simp add: getFilteredNotes_def)

lemma getFilteredNotes_selectionEffect:
  "getFilteredNotes toLowerCase (selectionEffect toLowerCase s) = getFilteredNotes toLowerCase s"
  by (rule getFilteredNotes_cong) (simp_all add: notes_selectionEffect query_selectionEffect)

text \<open>
  C1, as the program has it. Let the selected note \<open>i\<close> be deleted, \<open>k\<close> being the first
  index of a note with this id. The handler removes the notes with the id and selects
  the note at index \<open>k + 1\<close>, or at \<open>k - 1\<close> when \<open>k\<close> is the last index, or nothing when
  the collection has one note. The effect that follows keeps this selection if it is the
  id of a note of the filtered view of the remaining notes, and otherwise selects the
  first note of that view, or nothing when the view is empty. So when the ids are
  distinct and no query is typed, the selection after the deletion is a neighbour of the
  deleted note that remains, or nothing when no note remains.
\<close>

theorem delete_selected_note:
  assumes sel: "selectedId s = Some i" and mem: "i \<in> set (map note_id (notes' s))"
  shows "\<exists>h s' k.
    handleDeleteNote True i s = Inr h \<and>
    dispatch toLowerCase (Delete True i) s = Inr s' \<and>
    k < length (notes' s) \<and> note_id (notes' s ! k) = i \<and>
    (\<forall>m<k. note_id (notes' s ! m) \<noteq> i) \<and>
    notes' s' = filter (\<lambda>n. note_id n \<noteq> i) (notes' s) \<and>
    selectedId h =
      (if 1 < length (notes' s)
       then Some (note_id (notes' s ! (if k + 1 = length (notes' s) then k - 1 else k + 1)))
       else None) \<and>
    selectedId s' =
      (case getFilteredNotes toLowerCase s' of
         [] \<Rightarrow> None
       | n # _ \<Rightarrow>
           if selectedId h \<in> Some ` set (map note_id (getFilteredNotes toLowerCase s'))
           then selectedId h else Some (note_id n)) \<and>
    (distinct (map note_id (notes' s)) \<and> query s = [] \<longrightarrow>
       (if notes' s' = [] then selectedId s' = None
        else \<exists>j. j < length (notes' s) \<and> (j = k + 1 \<or> j + 1 = k) \<and>
               selectedId s' = Some (note_id (notes' s ! j)) \<and>
               notes' s ! j \<in> set (notes' s')))"
proof -
  let ?ns = "notes' s"
  let ?rest = "filter (\<lambda>n. note_id n \<noteq> i) ?ns"
  from handleDeleteNote_pick [OF mem] obtain k where
    klt: "k < length ?ns" and hit: "note_id (?ns ! k) = i" and
    first: "\<forall>m<k. note_id (?ns ! m) \<noteq> i" and
    hwrite: "handleDeleteNote True i s =
      Inr (s\<lparr>notes' := ?rest,
             selectedId :=
               (if 1 < length ?ns
                then Some (note_id (?ns ! (if k + 1 = length ?ns then k - 1 else k + 1)))
                else None)\<rparr>)"
    by blast
  define pick where
    "pick = (if 1 < length ?ns
             then Some (note_id (?ns ! (if k + 1 = length ?ns then k - 1 else k + 1)))
             else None)"
  define h where "h = s\<lparr>notes' := ?rest, selectedId := pick\<rparr>"
  define s' where "s' = selectionEffect toLowerCase h"
  have hw: "handleDeleteNote True i s = Inr h"
    using hwrite by (simp add: h_def pick_def)
  have dw: "dispatch toLowerCase (Delete True i) s = Inr s'"
    using hw by (simp add: dispatch_def s'_def)
  have ns': "notes' s' = ?rest"
    by (simp add: s'_def notes_selectionEffect h_def)
  have qs': "query s' = query s"
    by (simp add: s'_def query_selectionEffect h_def)
  have selh: "selectedId h = pick" by (simp add: h_def)
  have view: "getFilteredNotes toLowerCase s' = getFilteredNotes toLowerCase h"
    by (simp add: s'_def getFilteredNotes_selectionEffect)
  have sels': "selectedId s' =
      (case getFilteredNotes toLowerCase s' of
         [] \<Rightarrow> None
       | n # _ \<Rightarrow>
           if selectedId h \<in> Some ` set (map note_id (getFilteredNotes toLowerCase s'))
           then selectedId h else Some (note_id n))"
    unfolding view by (simp add: s'_def selectedId_selectionEffect)
  have special: "if notes' s' = [] then selectedId s' = None
        else \<exists>j. j < length ?ns \<and> (j = k + 1 \<or> j + 1 = k) \<and>
               selectedId s' = Some (note_id (?ns ! j)) \<and> ?ns ! j \<in> set (notes' s')"
    if d: "distinct (map note_id ?ns)" and q: "query s = []"
  proof -
    have vset: "set (getFilteredNotes toLowerCase s') = set ?rest"
      using q qs' ns' by (simp add: getFilteredNotes_def set_sort_cmp)
    show ?thesis
    proof (cases "?rest = []")
      case True
      with vset have "getFilteredNotes toLowerCase s' = []" by simp
      with sels' True ns' show ?thesis by simp
    next
      case False
      then obtain n where n: "n \<in> set ?ns" "note_id n \<noteq> i"
        by (auto simp: filter_empty_conv)
      then obtain m where m: "m < length ?ns" "?ns ! m = n"
        by (auto simp: in_set_conv_nth)
      with n hit have "m \<noteq> k" by auto
      with m klt have long: "1 < length ?ns" by linarith
      define j where "j = (if k + 1 = length ?ns then k - 1 else k + 1)"
      have j: "j < length ?ns" "j \<noteq> k" "j = k + 1 \<or> j + 1 = k"
        using klt long by (auto simp: j_def)
      from d have "\<forall>a<length ?ns. \<forall>b<length ?ns. a \<noteq> b \<longrightarrow> note_id (?ns ! a) \<noteq> note_id (?ns ! b)"
        by (simp add: distinct_conv_nth)
      with j klt have "note_id (?ns ! j) \<noteq> note_id (?ns ! k)" by blast
      with hit have other: "note_id (?ns ! j) \<noteq> i" by simp
      with j(1) have keep: "?ns ! j \<in> set ?rest" by simp
      have pick: "selectedId h = Some (note_id (?ns ! j))"
        using long by (simp add: selh pick_def j_def)
      from keep vset have inview: "?ns ! j \<in> set (getFilteredNotes toLowerCase s')"
        by simp
      then have "selectedId h \<in> Some ` set (map note_id (getFilteredNotes toLowerCase s'))"
        unfolding pick by force
      moreover from inview obtain v vs where "getFilteredNotes toLowerCase s' = v # vs"
        by (cases "getFilteredNotes toLowerCase s'") auto
      ultimately have "selectedId s' = Some (note_id (?ns ! j))"
        using sels' pick by simp
      with j keep ns' False show ?thesis by auto
    qed
  qed
  show ?thesis
    using hw dw klt hit first ns' selh sels' special
    unfolding pick_def by blast
qed

lemma three_ids: "map note_id three = [js ''n1'', js ''n2'', js ''n3'']"
  by (simp add: three_def)

theorem delete_selected_note_witness:
  "selectedId three_notes_no_query = Some (js ''n3'') \<and>
   js ''n3'' \<in> set (map note_id (notes' three_notes_no_query)) \<and>
   distinct (map note_id (notes' three_notes_no_query)) \<and>
   query three_notes_no_query = [] \<and>
   (\<exists>s'. dispatch toLowerCase_latin1 (Delete True (js ''n3'')) three_notes_no_query = Inr s' \<and>
         notes' s' = [three ! 0, three ! 1] \<and> selectedId s' = Some (js ''n2''))"
proof -
  let ?s = "three_notes_no_query"
  have ns: "notes' ?s = three"
    by (simp add: three_notes_no_query_def three_notes_def)
  have sel: "selectedId ?s = Some (js ''n3'')"
    by (simp add: three_notes_no_query_def three_notes_def)
  have mem: "js ''n3'' \<in> set (map note_id (notes' ?s))"
    by (simp add: ns three_ids)
  have d: "distinct (map note_id (notes' ?s))"
    by (simp add: ns three_ids js_def)
  have q: "query ?s = []"
    by (simp add: three_notes_no_query_def js_def)
  from delete_selected_note [OF sel mem, of toLowerCase_latin1] d q obtain s' k where
    run: "dispatch toLowerCase_latin1 (Delete True (js ''n3'')) ?s = Inr s'" and
    k: "k < length (notes' ?s)" "note_id (notes' ?s ! k) = js ''n3''" and
    rest: "notes' s' = filter (\<lambda>n. note_id n \<noteq> js ''n3'') (notes' ?s)" and
    nb: "if notes' s' = [] then selectedId s' = None
         else \<exists>j. j < length (notes' ?s) \<and> (j = k + 1 \<or> j + 1 = k) \<and>
                selectedId s' = Some (note_id (notes' ?s ! j)) \<and>
                notes' ?s ! j \<in> set (notes' s')"
    by blast
  have len: "length three = 3" by (simp add: three_def)
  from k have "k = 0 \<or> k = 1 \<or> k = 2" unfolding ns len by linarith
  with k(2) have k2: "k = 2"
    unfolding ns by (auto simp: three_def js_def)
  have rest': "notes' s' = [three ! 0, three ! 1]"
    unfolding rest ns by (simp add: three_def js_def)
  with nb obtain j where j: "j < length three" "j = k + 1 \<or> j + 1 = k"
    "selectedId s' = Some (note_id (three ! j))"
    unfolding ns by auto
  from j(1,2) k2 len have "j = 1" by linarith
  with j(3) have "selectedId s' = Some (js ''n2'')" by (simp add: three_def)
  with run rest' sel mem d q show ?thesis by blast
qed

text \<open>
  The claim as the specification words it fails while a query is typed. In
  \<open>three_notes_gam\<close> the query is \<open>Gam\<close> and the third note, the one note of the view, is
  selected. After its deletion two notes remain and nothing is selected: the handler
  selects the second note, the effect finds it missing from the view, which is empty.
  It fails also where ids repeat: in \<open>repeated_id\<close> the notes at the indices 0 and 1
  have the selected id, and after their deletion the selected note is the one that stood
  at index 3.
\<close>

theorem delete_selects_no_neighbour:
  "selectedId three_notes_gam = Some (js ''n3'') \<and>
   selectionEffect toLowerCase_latin1 three_notes_gam = three_notes_gam \<and>
   dispatch toLowerCase_latin1 (Delete True (js ''n3'')) three_notes_gam =
     Inr (three_notes_gam\<lparr>notes' := [three ! 0, three ! 1], selectedId := None\<rparr>) \<and>
   selectedId repeated_id = Some (js ''n1'') \<and>
   selectionEffect toLowerCase_latin1 repeated_id = repeated_id \<and>
   dispatch toLowerCase_latin1 (Delete True (js ''n1'')) repeated_id =
     Inr (repeated_id\<lparr>notes' := [notes' repeated_id ! 2, notes' repeated_id ! 3],
                      selectedId := Some (note_id (notes' repeated_id ! 3))\<rparr>)"
  by (simp add: three_notes_gam_def three_notes_def three_def repeated_id_def dispatch_def
      handleDeleteNote_def id_at_def selectionEffect_def ids_includes_def getFilteredNotes_def
      sort_cmp_def toLowerCase_latin1_def lower_latin1_def js_def Let_def)

subsection \<open>The ids that \<open>generateId\<close> makes\<close>

lemma undigit_digit_char: "d < 36 \<Longrightarrow> undigit (digit_char d) = d"
  by (simp add: undigit_def digit_char_def)

lemma digit_char_neq: "d < 36 \<Longrightarrow> digit_char d \<noteq> 95 \<and> digit_char d \<noteq> 45"
  by (simp add: digit_char_def)

lemma digits_value_snoc: "digits_value b (ds @ [c]) = digits_value b ds * b + undigit c"
  by (simp add: digits_value_def)

lemma digits_value_digits: "2 \<le> b \<Longrightarrow> b \<le> 36 \<Longrightarrow> digits_value b (digits b n) = n"
proof (induction b n rule: digits.induct)
  case (1 b n)
  show ?case
  proof (cases "n < b")
    case True
    with 1 show ?thesis
      by (simp add: digits.simps [of b n] digits_value_def undigit_digit_char)
  next
    case False
    with 1 have "digits_value b (digits b (n div b)) = n div b" by simp
    moreover have "n mod b < 36" using 1 by (simp add: less_le_trans [of "n mod b" b 36])
    ultimately show ?thesis
      using False 1
      by (simp add: digits.simps [of b n] digits_value_snoc undigit_digit_char)
  qed
qed

lemma set_digits: "2 \<le> b \<Longrightarrow> set (digits b n) \<subseteq> digit_char ` {..<b}"
proof (induction b n rule: digits.induct)
  case (1 b n)
  show ?case
  proof (cases "n < b")
    case True
    with 1 show ?thesis by (simp add: digits.simps [of b n])
  next
    case False
    with 1 have "set (digits b (n div b)) \<subseteq> digit_char ` {..<b}" by simp
    moreover have "n mod b < b" using 1 by simp
    ultimately show ?thesis
      using False 1 by (simp add: digits.simps [of b n])
  qed
qed

lemma digits_nonempty: "digits b n \<noteq> []"
  by (simp add: digits.simps [of b n])

lemma digits_no_sep:
  assumes "2 \<le> b" "b \<le> 36"
  shows "95 \<notin> set (digits b n) \<and> 45 \<notin> set (digits b n)"
proof -
  have "c \<noteq> 95 \<and> c \<noteq> 45" if "c \<in> set (digits b n)" for c
  proof -
    from that set_digits [OF assms(1), of n] obtain d where "d < b" "c = digit_char d"
      by auto
    with assms(2) show ?thesis by (simp add: digit_char_neq)
  qed
  then show ?thesis by blast
qed

lemma toString_inj:
  assumes b: "2 \<le> b" "b \<le> 36" and eq: "toString b t = toString b u"
  shows "t = u"
proof -
  have neg: "hd (toString b x) = 45" if "x < 0" for x
    using that by (simp add: toString_def)
  have pos: "hd (toString b x) \<noteq> 45" if "\<not> x < 0" for x
  proof -
    have "hd (digits b (nat x)) \<in> set (digits b (nat x))"
      by (simp add: digits_nonempty)
    with digits_no_sep [OF b, of "nat x"] that show ?thesis
      by (auto simp: toString_def)
  qed
  show ?thesis
  proof (cases "t < 0")
    case True
    with neg [of t] pos [of u] eq have u: "u < 0" by auto
    with True eq have "digits b (nat (- t)) = digits b (nat (- u))"
      by (simp add: toString_def)
    then have "digits_value b (digits b (nat (- t))) = digits_value b (digits b (nat (- u)))"
      by simp
    with b have "nat (- t) = nat (- u)" by (simp add: digits_value_digits)
    with True u show ?thesis by simp
  next
    case False
    with neg [of u] pos [of t] eq have u: "\<not> u < 0" by auto
    with False eq have "digits b (nat t) = digits b (nat u)"
      by (simp add: toString_def)
    then have "digits_value b (digits b (nat t)) = digits_value b (digits b (nat u))"
      by simp
    with b have "nat t = nat u" by (simp add: digits_value_digits)
    with False u show ?thesis by simp
  qed
qed

lemma toString_no_underscore: "95 \<notin> set (toString 36 t)"
  using digits_no_sep [of 36] by (simp add: toString_def)

lemma split_at_last:
  assumes "xs @ c # ys = xs' @ c # ys'" "c \<notin> set ys" "c \<notin> set ys'"
  shows "xs = xs' \<and> ys = ys'"
proof -
  from assms(1) have "rev (xs @ c # ys) = rev (xs' @ c # ys')" by simp
  then have e: "rev ys @ c # rev xs = rev ys' @ c # rev xs'" by simp
  have "takeWhile (\<lambda>x. x \<noteq> c) (rev ys @ c # rev xs) = rev ys"
    using assms(2) by (auto simp: takeWhile_tail)
  moreover have "takeWhile (\<lambda>x. x \<noteq> c) (rev ys' @ c # rev xs') = rev ys'"
    using assms(3) by (auto simp: takeWhile_tail)
  ultimately have "rev ys = rev ys'" using e by simp
  then have "ys = ys'" by simp
  with assms(1) show ?thesis by simp
qed

text \<open>Two ids are equal only when the random part and the clock value are.\<close>

lemma generateId_inj:
  assumes "generateId r t = generateId r' t'"
  shows "r = r' \<and> t = t'"
proof -
  from assms have "r @ 95 # toString 36 t = r' @ 95 # toString 36 t'"
    by (simp add: generateId_def js_def)
  from split_at_last [OF this toString_no_underscore toString_no_underscore]
  have "r = r'" "toString 36 t = toString 36 t'" by simp_all
  with toString_inj [of 36 t t'] show ?thesis by simp
qed

lemma digits_small: "n < b \<Longrightarrow> digits b n = [digit_char n]"
  by (simp add: digits.simps [of b n])

lemma digits_large:
  "2 \<le> b \<Longrightarrow> b \<le> n \<Longrightarrow> digits b n = digits b (n div b) @ [digit_char (n mod b)]"
  by (simp add: digits.simps [of b n])

lemma generateId_example:
  "generateId (js ''4fzzzxjyl'') 1700000000000 = js ''note_4fzzzxjyl_loyw3v28''"
  by (simp add: generateId_def toString_def digits_small digits_large digit_char_def js_def)

text \<open>
  What \<open>handleAddNote\<close> guarantees: it puts a note with the id
  \<open>generateId rnd now_id\<close> in front of the collection and selects it. It does not look
  at the ids of the collection: when these were generated from the pairs \<open>ps\<close> of a
  random part and a clock value, the new id differs from all of them if the pair drawn
  now is none of \<open>ps\<close>.
\<close>

theorem handleAddNote_fresh_id:
  assumes "map note_id (notes' s) = map (\<lambda>(r, t). generateId r t) ps"
    and "(rnd, now_id) \<notin> set ps"
  shows "\<exists>n. notes' (handleAddNote rnd now_id created s) = n # notes' s \<and>
           note_id n = generateId rnd now_id \<and>
           selectedId (handleAddNote rnd now_id created s) = Some (note_id n) \<and>
           note_id n \<notin> set (map note_id (notes' s))"
proof -
  have "generateId rnd now_id \<notin> set (map (\<lambda>(r, t). generateId r t) ps)"
  proof
    assume "generateId rnd now_id \<in> set (map (\<lambda>(r, t). generateId r t) ps)"
    then obtain r t where "(r, t) \<in> set ps" "generateId rnd now_id = generateId r t"
      by auto
    with generateId_inj [of rnd now_id r t] assms(2) show False by simp
  qed
  with assms(1) show ?thesis
    by (simp add: handleAddNote_def Let_def)
qed

theorem handleAddNote_fresh_id_witness:
  "map note_id (notes' one_note) =
     map (\<lambda>(r, t). generateId r t) [(js ''4fzzzxjyl'', 1700000000000)] \<and>
   (js ''k2p0q9zzb'', 1700000000000) \<notin> set [(js ''4fzzzxjyl'', 1700000000000 :: int)] \<and>
   (\<exists>n. notes' (handleAddNote (js ''k2p0q9zzb'') 1700000000000 1700000000001 one_note)
           = n # notes' one_note \<and>
         note_id n = generateId (js ''k2p0q9zzb'') 1700000000000 \<and>
         selectedId (handleAddNote (js ''k2p0q9zzb'') 1700000000000 1700000000001 one_note)
           = Some (note_id n) \<and>
         note_id n \<notin> set (map note_id (notes' one_note)))"
proof -
  have ids: "map note_id (notes' one_note) =
     map (\<lambda>(r, t). generateId r t) [(js ''4fzzzxjyl'', 1700000000000)]"
    by (simp add: one_note_def handleAddNote_def empty_state_def Let_def)
  have new: "(js ''k2p0q9zzb'', 1700000000000) \<notin> set [(js ''4fzzzxjyl'', 1700000000000 :: int)]"
    by (simp add: js_def)
  show ?thesis
    using ids new handleAddNote_fresh_id [OF ids new, of 1700000000001]
    by (intro conjI)
qed

text \<open>
  C4. A created note is to get an id that no note of the collection has, and
  \<open>generateId\<close> is commented as making a unique id. When the random part and the
  clock value of an earlier creation come again, the code gives the second note the id
  of the first: the id of the note at index 0 after the creation is the id of a note
  that the collection held before.
\<close>

theorem handleAddNote_repeated_id:
  "note_id (notes' (handleAddNote (js ''4fzzzxjyl'') 1700000000000 1700000000000 one_note) ! 0)
     \<in> set (map note_id (notes' one_note))"
  by (simp add: one_note_def handleAddNote_def empty_state_def Let_def)

subsection \<open>The order of the stored collection\<close>

lemma subseq_filter_ids:
  "subseq (map note_id (filter P ns)) (map note_id ns)"
  by (induction ns) auto

lemma dispatch_stored:
  "\<exists>s'. dispatch toLowerCase a s = Inr s' \<and> notes' s' = stored_after a (notes' s)"
proof (cases a)
  case (Create rnd now_id created)
  then show ?thesis
    by (simp add: dispatch_def notes_selectionEffect handleAddNote_def Let_def)
next
  case (Edit i f v now)
  then show ?thesis
    by (simp add: dispatch_def notes_selectionEffect handleEditNote_def)
next
  case (Delete c i)
  obtain s' where s': "handleDeleteNote c i s = Inr s'"
    using handleDeleteNote_total by blast
  from handleDeleteNote_notes [OF s'] s' Delete show ?thesis
    by (simp add: dispatch_def notes_selectionEffect)
qed

lemma note_id_patch: "note_id (patch f v now n) = note_id n"
  by (cases f) simp_all

lemma ids_patched:
  "map note_id (map (\<lambda>n. if note_id n = i then patch f v now n else n) ns) = map note_id ns"
  by (induction ns) (simp_all add: note_id_patch)

lemma stored_after_ids:
  "subseq (map note_id (stored_after a ns)) (rev (created_ids [a]) @ map note_id ns)"
proof (cases a)
  case (Edit i f v now)
  then show ?thesis by (simp add: ids_patched del: map_map)
qed (simp_all add: subseq_filter_ids)

lemma created_ids_Cons: "created_ids (a # as) = created_ids [a] @ created_ids as"
  by (cases a) simp_all

lemma created_ids_append: "created_ids (as @ bs) = created_ids as @ created_ids bs"
proof (induction as)
  case Nil
  show ?case by simp
next
  case (Cons a as)
  have "created_ids ((a # as) @ bs) = created_ids [a] @ created_ids (as @ bs)"
    using created_ids_Cons [of a "as @ bs"] by simp
  also have "\<dots> = created_ids [a] @ created_ids as @ created_ids bs"
    by (simp add: Cons.IH)
  also have "\<dots> = created_ids (a # as) @ created_ids bs"
    using created_ids_Cons [of a as] by simp
  finally show ?case .
qed

lemma run_append:
  "run toLowerCase (as @ bs) s =
     (case run toLowerCase as s of Inl e \<Rightarrow> Inl e | Inr s1 \<Rightarrow> run toLowerCase bs s1)"
  by (induction as arbitrary: s) (simp_all split: sum.splits)

lemma run_ids:
  "\<exists>s'. run toLowerCase as s = Inr s' \<and>
     subseq (map note_id (notes' s')) (rev (created_ids as) @ map note_id (notes' s))"
proof (induction as arbitrary: s)
  case Nil
  show ?case by simp
next
  case (Cons a as)
  obtain s1 where s1: "dispatch toLowerCase a s = Inr s1"
    and n1: "notes' s1 = stored_after a (notes' s)"
    using dispatch_stored by blast
  have o1: "subseq (map note_id (notes' s1)) (rev (created_ids [a]) @ map note_id (notes' s))"
    unfolding n1 by (rule stored_after_ids)
  obtain s2 where s2: "run toLowerCase as s1 = Inr s2"
    and o2: "subseq (map note_id (notes' s2)) (rev (created_ids as) @ map note_id (notes' s1))"
    using Cons.IH by blast
  have "subseq (rev (created_ids as) @ map note_id (notes' s1))
      (rev (created_ids as) @ rev (created_ids [a]) @ map note_id (notes' s))"
    using o1 by (simp only: subseq_append')
  with o2 have "subseq (map note_id (notes' s2))
      (rev (created_ids as) @ rev (created_ids [a]) @ map note_id (notes' s))"
    by (rule subseq_order.trans)
  moreover have "rev (created_ids (a # as)) = rev (created_ids as) @ rev (created_ids [a])"
    by (subst created_ids_Cons) simp
  ultimately show ?case
    using s1 s2 by simp
qed

text \<open>
  C7, as the code has it. No run of create, edit and delete events throws. After any
  run, a creation stores the new note in front of the notes stored so far, before all
  notes created earlier; an edit stores the same notes at the same places, those with
  the id patched; a confirmed deletion stores the notes with another id in the order
  they had, and a deletion that is not confirmed stores what was stored. So the stored
  ids are, in this order, ids created in the run from the last created to the first,
  followed by ids the collection had before the run.
\<close>

theorem stored_order_newest_first:
  "\<exists>s1 s2.
     run toLowerCase as s = Inr s1 \<and>
     run toLowerCase (as @ [a]) s = Inr s2 \<and>
     notes' s2 =
       (case a of
          Create rnd now_id created \<Rightarrow>
            \<lparr>note_id = generateId rnd now_id, title = js ''Untitled Note'', content = js '''',
             updated = created\<rparr> # notes' s1
        | Edit i f v now \<Rightarrow>
            map (\<lambda>n. if note_id n = i
                     then (case f of Title \<Rightarrow> n\<lparr>title := v, updated := now\<rparr>
                                   | Content \<Rightarrow> n\<lparr>content := v, updated := now\<rparr>)
                     else n) (notes' s1)
        | Delete confirmed i \<Rightarrow>
            if confirmed then filter (\<lambda>n. note_id n \<noteq> i) (notes' s1) else notes' s1) \<and>
     subseq (map note_id (notes' s1)) (rev (created_ids as) @ map note_id (notes' s)) \<and>
     subseq (map note_id (notes' s2))
       (rev (created_ids (as @ [a])) @ map note_id (notes' s))"
proof -
  obtain s1 where s1: "run toLowerCase as s = Inr s1"
    and o1: "subseq (map note_id (notes' s1)) (rev (created_ids as) @ map note_id (notes' s))"
    using run_ids by blast
  obtain s2 where d: "dispatch toLowerCase a s1 = Inr s2"
    and n2: "notes' s2 = stored_after a (notes' s1)"
    using dispatch_stored by blast
  have r2: "run toLowerCase (as @ [a]) s = Inr s2"
    using s1 d by (simp add: run_append)
  obtain s3 where s3: "run toLowerCase (as @ [a]) s = Inr s3"
    and o3: "subseq (map note_id (notes' s3))
       (rev (created_ids (as @ [a])) @ map note_id (notes' s))"
    using run_ids by blast
  from s3 r2 have "s3 = s2" by simp
  with o3 have o2: "subseq (map note_id (notes' s2))
       (rev (created_ids (as @ [a])) @ map note_id (notes' s))"
    by simp
  have shape: "stored_after a (notes' s1) =
       (case a of
          Create rnd now_id created \<Rightarrow>
            \<lparr>note_id = generateId rnd now_id, title = js ''Untitled Note'', content = js '''',
             updated = created\<rparr> # notes' s1
        | Edit i f v now \<Rightarrow>
            map (\<lambda>n. if note_id n = i
                     then (case f of Title \<Rightarrow> n\<lparr>title := v, updated := now\<rparr>
                                   | Content \<Rightarrow> n\<lparr>content := v, updated := now\<rparr>)
                     else n) (notes' s1)
        | Delete confirmed i \<Rightarrow>
            if confirmed then filter (\<lambda>n. note_id n \<noteq> i) (notes' s1) else notes' s1)"
  proof (cases a)
    case (Edit i f v now)
    then show ?thesis by (cases f) simp_all
  qed simp_all
  show ?thesis
    using s1 r2 n2 o1 o2 unfolding shape by blast
qed

text \<open>
  The claim as the specification words it fails at the second creation already: the
  note created last is the first of the stored collection, before the note created
  earlier, and not the last one.
\<close>

theorem second_created_note_stored_first:
  "map note_id
     (notes' (handleAddNote (js ''k2p0q9zzb'') 1700000000500 1700000000500 one_note)) =
     [generateId (js ''k2p0q9zzb'') 1700000000500,
      generateId (js ''4fzzzxjyl'') 1700000000000] \<and>
   notes' (handleAddNote (js ''k2p0q9zzb'') 1700000000500 1700000000500 one_note) \<noteq>
     notes' one_note @
       [\<lparr>note_id = generateId (js ''k2p0q9zzb'') 1700000000500, title = js ''Untitled Note'',
         content = js '''', updated = 1700000000500\<rparr>]"
  by (simp add: one_note_def handleAddNote_def empty_state_def Let_def)

subsection \<open>The filter\<close>

lemma includes_str_sublist: "includes_str s q \<longleftrightarrow> sublist q s"
  by (induction s) (simp_all add: sublist_Cons_right)

lemma set_substrings: "set (substrings s) = {w. sublist w s}"
  by (auto simp: substrings_def sublist_altdef')

lemma sublist_map_iff: "sublist q (map f t) \<longleftrightarrow> (\<exists>w. sublist w t \<and> map f w = q)"
proof
  assume "sublist q (map f t)"
  then obtain ps ss where "map f t = ps @ q @ ss"
    by (auto simp: sublist_def)
  then obtain t1 r where "t = t1 @ r" "map f r = q @ ss"
    by (metis map_eq_append_conv)
  moreover from this obtain w t2 where "r = w @ t2" "map f w = q"
    by (metis map_eq_append_conv)
  ultimately have "t = t1 @ w @ t2" "map f w = q"
    by simp_all
  then show "\<exists>w. sublist w t \<and> map f w = q"
    by auto
next
  assume "\<exists>w. sublist w t \<and> map f w = q"
  then show "sublist q (map f t)"
    by (auto intro: map_mono_sublist)
qed

text \<open>
  Where \<open>toLowerCase\<close> maps the text and the query code unit by code unit, what the
  code computes, \<open>text.toLowerCase().includes(query.toLowerCase())\<close>, is what the
  specification says.
\<close>

lemma sublist_lower_case:
  "sublist (map lower_case q) (map lower_case text) \<longleftrightarrow> contains_ignoring_case lower_case text q"
  by (auto simp: contains_ignoring_case_def set_substrings sublist_map_iff)

text \<open>
  C5, as the code has it. For a query that is not empty, the notes of the filtered view
  are exactly the notes of the collection whose title or content, in lower case, has
  the query in lower case as a substring. Where \<open>toLowerCase\<close> maps the query, the
  titles and the contents code unit by code unit, these are the notes whose title or
  content contains the query, letter case ignored.
\<close>

theorem getFilteredNotes_matches:
  assumes "query s \<noteq> []"
  shows "set (getFilteredNotes toLowerCase s) =
      {n \<in> set (notes' s).
         sublist (toLowerCase (query s)) (toLowerCase (title n)) \<or>
         sublist (toLowerCase (query s)) (toLowerCase (content n))} \<and>
    (toLowerCase (query s) = map lower_case (query s) \<and>
     (\<forall>n \<in> set (notes' s).
        toLowerCase (title n) = map lower_case (title n) \<and>
        toLowerCase (content n) = map lower_case (content n)) \<longrightarrow>
     set (getFilteredNotes toLowerCase s) =
       {n \<in> set (notes' s).
          contains_ignoring_case lower_case (title n) (query s) \<or>
          contains_ignoring_case lower_case (content n) (query s)})"
proof -
  have view: "set (getFilteredNotes toLowerCase s) =
      {n \<in> set (notes' s).
         sublist (toLowerCase (query s)) (toLowerCase (title n)) \<or>
         sublist (toLowerCase (query s)) (toLowerCase (content n))}"
    using assms
    by (simp add: getFilteredNotes_def Let_def set_sort_cmp includes_str_sublist)
  have "{n \<in> set (notes' s).
         sublist (toLowerCase (query s)) (toLowerCase (title n)) \<or>
         sublist (toLowerCase (query s)) (toLowerCase (content n))} =
       {n \<in> set (notes' s).
          contains_ignoring_case lower_case (title n) (query s) \<or>
          contains_ignoring_case lower_case (content n) (query s)}"
    if q: "toLowerCase (query s) = map lower_case (query s)"
      and t: "\<forall>n \<in> set (notes' s).
        toLowerCase (title n) = map lower_case (title n) \<and>
        toLowerCase (content n) = map lower_case (content n)"
    using t unfolding q by (auto simp: sublist_lower_case)
  with view show ?thesis by simp
qed

theorem getFilteredNotes_matches_witness:
  "query three_notes \<noteq> [] \<and>
   set (getFilteredNotes toLowerCase_latin1 three_notes) =
     {n \<in> set (notes' three_notes).
        contains_ignoring_case lower_latin1 (title n) (query three_notes) \<or>
        contains_ignoring_case lower_latin1 (content n) (query three_notes)} \<and>
   getFilteredNotes toLowerCase_latin1 three_notes = [three ! 1, three ! 0]"
proof -
  have q: "query three_notes \<noteq> []" by (simp add: three_notes_def js_def)
  have "set (getFilteredNotes toLowerCase_latin1 three_notes) =
     {n \<in> set (notes' three_notes).
        contains_ignoring_case lower_latin1 (title n) (query three_notes) \<or>
        contains_ignoring_case lower_latin1 (content n) (query three_notes)}"
  proof (rule mp [OF conjunct2 [OF getFilteredNotes_matches [OF q]]])
    show "toLowerCase_latin1 (query three_notes) = map lower_latin1 (query three_notes) \<and>
      (\<forall>n \<in> set (notes' three_notes).
         toLowerCase_latin1 (title n) = map lower_latin1 (title n) \<and>
         toLowerCase_latin1 (content n) = map lower_latin1 (content n))"
      by (simp add: toLowerCase_latin1_def)
  qed
  with q three_notes_view show ?thesis by simp
qed

text \<open>
  The claim as the specification words it fails where \<open>toLowerCase\<close> looks at the
  context. The title \<open>kosmos\<close> contains the query \<open>kos\<close> as it is written, at its
  beginning. In lower case the query ends in a final sigma and the title has another
  sigma at this place, so the note is not in the view.
\<close>

theorem kosmos_not_found:
  "query kosmos_state \<noteq> [] \<and>
   notes' kosmos_state ! 0 \<in> set (notes' kosmos_state) \<and>
   prefix (query kosmos_state) (title (notes' kosmos_state ! 0)) \<and>
   getFilteredNotes toLowerCase_kosmos kosmos_state = []"
  by (simp add: kosmos_state_def kos_def kosmos_def toLowerCase_kosmos_def
      getFilteredNotes_def sort_cmp_def js_def)

subsection \<open>The effect after a creation\<close>

text \<open>
  While no query is typed the effect keeps the selection that \<open>handleAddNote\<close> has
  made. While a query is typed that the title \<open>Untitled Note\<close> does not match, the new
  note is not in the view and the effect selects another note.
\<close>

lemma selectionEffect_keeps:
  assumes "query s = []" and "selectedId s = Some i" and "i \<in> set (map note_id (notes' s))"
  shows "selectionEffect toLowerCase s = s"
proof -
  have "set (map note_id (getFilteredNotes toLowerCase s)) = set (map note_id (notes' s))"
    using assms(1) by (simp add: getFilteredNotes_def set_sort_cmp)
  with assms(2,3)
  have "ids_includes (map note_id (getFilteredNotes toLowerCase s)) (selectedId s)"
    by (simp add: ids_includes_def)
  then show ?thesis
    using assms(2)
    by (cases "map note_id (getFilteredNotes toLowerCase s)")
      (simp_all add: selectionEffect_def Let_def ids_includes_def)
qed

lemma dispatch_Create_empty_query:
  "query s = [] \<Longrightarrow>
   dispatch toLowerCase (Create rnd now_id created) s = Inr (handleAddNote rnd now_id created s)"
  by (simp add: dispatch_def
      selectionEffect_keeps [of _ "generateId rnd now_id"] handleAddNote_def Let_def)

lemma create_with_query_not_selected:
  "\<exists>s'. dispatch toLowerCase_latin1
           (Create (js ''4fzzzxjyl'') 1700000000000 1700000000000) three_notes_gam = Inr s' \<and>
         length (notes' s') = 4 \<and>
         note_id (notes' s' ! 0) = generateId (js ''4fzzzxjyl'') 1700000000000 \<and>
         selectedId s' = Some (js ''n3'')"
  by (simp add: dispatch_def handleAddNote_def generateId_example three_notes_gam_def
      three_notes_def three_def selectionEffect_def ids_includes_def getFilteredNotes_def
      sort_cmp_def toLowerCase_latin1_def lower_latin1_def js_def Let_def)

subsection \<open>Persisting and loading\<close>

lemma hex_digit_digit_char: "d < 16 \<Longrightarrow> hex_digit (digit_char d) = Some d"
  by (simp add: hex_digit_def digit_char_def)

lemma hex4_value:
  fixes k :: nat
  assumes "k < 65536"
  shows "((k div 4096 mod 16 * 16 + k div 256 mod 16) * 16 + k div 16 mod 16) * 16 + k mod 16 = k"
proof -
  define n1 where "n1 = k div 16"
  define n2 where "n2 = n1 div 16"
  define n3 where "n3 = n2 div 16"
  define m0 where "m0 = k mod 16"
  define m1 where "m1 = n1 mod 16"
  define m2 where "m2 = n2 mod 16"
  have d256: "k div 256 = n2"
    using div_mult2_eq [of k 16 16] by (simp add: n1_def n2_def)
  have d4096: "k div 4096 = n3"
    using div_mult2_eq [of k 256 16] d256 by (simp add: n3_def)
  have "n3 < 16" using assms d4096 by (simp add: less_mult_imp_div_less)
  then have m3: "n3 mod 16 = n3" by simp
  have e0: "k = n1 * 16 + m0" by (simp add: n1_def m0_def)
  have e1: "n1 = n2 * 16 + m1" by (simp add: n2_def m1_def)
  have e2: "n2 = n3 * 16 + m2" by (simp add: n3_def m2_def)
  have "((n3 * 16 + m2) * 16 + m1) * 16 + m0 = k"
    by (subst e0, subst e1, subst e2) simp
  then show ?thesis
    unfolding d256 d4096 m3 by (simp only: n1_def [symmetric] m0_def m1_def m2_def)
qed

lemma unescape_u_hex4:
  assumes "k < 65536"
  shows "unescape_u (digit_char (k div 4096 mod 16)) (digit_char (k div 256 mod 16))
           (digit_char (k div 16 mod 16)) (digit_char (k mod 16)) = Some k"
proof -
  have h: "hex_digit (digit_char (x mod 16)) = Some (x mod 16)" for x
    by (simp add: hex_digit_digit_char)
  show ?thesis
    unfolding unescape_u_def h
    by (simp only: prod.case option.case hex4_value [OF assms])
qed

lemma read_chars_escape_u:
  "read_chars (0x5C # 117 # h1 # h2 # h3 # h4 # rest) =
     (case unescape_u h1 h2 h3 h4 of
        None \<Rightarrow> None
      | Some ch \<Rightarrow> cons_result ch (read_chars rest))"
  by (simp add: js_def)

lemma read_chars_UnicodeEscape:
  assumes "k < 65536"
  shows "read_chars (UnicodeEscape k @ rest) = cons_result k (read_chars rest)"
proof -
  have e: "UnicodeEscape k @ rest =
      0x5C # 117 # digit_char (k div 4096 mod 16) # digit_char (k div 256 mod 16) #
        digit_char (k div 16 mod 16) # digit_char (k mod 16) # rest"
    by (simp add: UnicodeEscape_def hex4_def js_def)
  show ?thesis
    unfolding e by (simp only: read_chars_escape_u unescape_u_hex4 [OF assms] option.case)
qed

lemma read_chars_end: "read_chars (0x22 # rest) = Some ([], rest)"
  by simp

text \<open>Reading undoes the quoting of one code unit that is no surrogate.\<close>

lemma read_chars_QuoteJSONChar:
  assumes "\<not> is_leading_surrogate c \<or> c < 32"
  shows "read_chars (QuoteJSONChar c @ rest) = cons_result c (read_chars rest)"
proof -
  consider (b) "c = 0x08" | (t) "c = 0x09" | (n) "c = 0x0A" | (f) "c = 0x0C"
    | (r) "c = 0x0D" | (q) "c = 0x22" | (s) "c = 0x5C"
    | (u) "c \<noteq> 0x08" "c \<noteq> 0x09" "c \<noteq> 0x0A" "c \<noteq> 0x0C" "c \<noteq> 0x0D"
          "c \<noteq> 0x22" "c \<noteq> 0x5C" "c < 32"
    | (l) "c \<noteq> 0x08" "c \<noteq> 0x09" "c \<noteq> 0x0A" "c \<noteq> 0x0C" "c \<noteq> 0x0D"
          "c \<noteq> 0x22" "c \<noteq> 0x5C" "\<not> c < 32"
    by blast
  then show ?thesis
  proof cases
    case u
    then have "c < 65536" by simp
    with u show ?thesis
      by (simp add: QuoteJSONChar_def read_chars_UnicodeEscape)
  next
    case l
    then show ?thesis by (simp add: QuoteJSONChar_def)
  qed (simp_all add: QuoteJSONChar_def unescape_def js_def)
qed

lemma read_chars_unit:
  "c \<noteq> 0x22 \<Longrightarrow> c \<noteq> 0x5C \<Longrightarrow> \<not> c < 32 \<Longrightarrow>
   read_chars (c # rest) = cons_result c (read_chars rest)"
  by simp

lemma read_chars_quoted:
  "read_chars (quote_units s @ 0x22 # rest) = Some (s, rest)"
proof (induction s rule: quote_units.induct)
  case 1
  show ?case by simp
next
  case (2 c cs)
  show ?case
  proof (cases "is_leading_surrogate c")
    case lead: True
    then have c: "c < 65536" "c \<noteq> 0x22" "c \<noteq> 0x5C" "\<not> c < 32"
      by (simp_all add: is_leading_surrogate_def)
    show ?thesis
    proof (cases cs)
      case Nil
      with lead c show ?thesis
        by (simp add: read_chars_UnicodeEscape read_chars_end cons_result_def
            del: read_chars.simps(2))
    next
      case (Cons d ds)
      show ?thesis
      proof (cases "is_trailing_surrogate d")
        case True
        then have d: "d \<noteq> 0x22" "d \<noteq> 0x5C" "\<not> d < 32"
          by (simp_all add: is_trailing_surrogate_def)
        from 2(1) [OF lead Cons True]
        have "read_chars (quote_units ds @ 0x22 # rest) = Some (ds, rest)" .
        with lead Cons True c d show ?thesis
          by (simp add: read_chars_unit cons_result_def del: read_chars.simps(2))
      next
        case False
        from 2(2) [OF lead Cons False]
        have "read_chars (quote_units cs @ 0x22 # rest) = Some (cs, rest)" .
        with lead Cons False c show ?thesis
          by (simp add: read_chars_UnicodeEscape cons_result_def del: read_chars.simps(2))
      qed
    qed
  next
    case nolead: False
    show ?thesis
    proof (cases "is_trailing_surrogate c")
      case True
      then have c: "c < 65536" by (simp add: is_trailing_surrogate_def)
      from 2(3) [OF nolead True]
      have "read_chars (quote_units cs @ 0x22 # rest) = Some (cs, rest)" .
      with nolead True c show ?thesis
        by (simp add: read_chars_UnicodeEscape cons_result_def del: read_chars.simps(2))
    next
      case False
      from 2(4) [OF nolead False]
      have "read_chars (quote_units cs @ 0x22 # rest) = Some (cs, rest)" .
      with nolead False show ?thesis
        by (simp add: read_chars_QuoteJSONChar cons_result_def del: read_chars.simps(2))
    qed
  qed
qed

lemma read_string_QuoteJSONString:
  "read_string (QuoteJSONString s @ rest) = Some (s, rest)"
  by (simp add: read_string_def QuoteJSONString_def read_chars_quoted)

lemma is_digit_digit_char: "d < 10 \<Longrightarrow> is_digit (digit_char d)"
  by (simp add: is_digit_def digit_char_def)

lemma all_is_digit: "\<forall>c \<in> set (digits 10 n). is_digit c"
  using set_digits [of 10 n] by (auto simp: is_digit_digit_char)

lemma hd_digits_nonzero:
  "2 \<le> b \<Longrightarrow> b \<le> 36 \<Longrightarrow> 0 < n \<Longrightarrow> hd (digits b n) \<noteq> digit_char 0"
proof (induction b n rule: digits.induct)
  case (1 b n)
  show ?case
  proof (cases "n < b")
    case True
    have "undigit (digit_char n) \<noteq> undigit (digit_char 0)"
      using True 1(3,4) by (simp add: undigit_digit_char)
    then have "digit_char n \<noteq> digit_char 0" by auto
    with True show ?thesis by (simp add: digits.simps [of b n])
  next
    case False
    with 1 have "0 < n div b" by (simp add: div_greater_zero_iff)
    with 1 False have "hd (digits b (n div b)) \<noteq> digit_char 0" by simp
    with False 1(2) show ?thesis
      by (simp add: digits.simps [of b n] digits_nonempty)
  qed
qed

lemma digits_zero: "digits 10 0 = [48]"
  by (simp add: digits.simps [of 10 0] digit_char_def)

lemma no_leading_zero: "length (digits 10 n) > 1 \<Longrightarrow> hd (digits 10 n) \<noteq> 48"
proof (cases "n = 0")
  case True
  assume "length (digits 10 n) > 1"
  with True show ?thesis by (simp add: digits_zero)
next
  case False
  then have "hd (digits 10 n) \<noteq> digit_char 0" by (simp add: hd_digits_nonzero)
  then show ?thesis by (simp add: digit_char_def)
qed

lemma read_nat_digits:
  assumes "\<not> is_digit c"
  shows "read_nat (digits 10 n @ c # rest) = Some (n, c # rest)"
proof -
  have tw: "takeWhile is_digit (digits 10 n @ c # rest) = digits 10 n"
    using assms all_is_digit [of n] by (simp add: takeWhile_tail)
  have dw: "dropWhile is_digit (digits 10 n @ c # rest) = c # rest"
    using assms all_is_digit [of n] by simp
  show ?thesis
    using no_leading_zero [of n]
    by (auto simp: read_nat_def Let_def tw dw digits_nonempty digits_value_digits)
qed

lemma read_int_toString:
  assumes "\<not> is_digit c"
  shows "read_int (toString 10 t @ c # rest) = Some (t, c # rest)"
proof (cases "t < 0")
  case True
  then show ?thesis
    by (simp add: read_int_def toString_def read_nat_digits [OF assms])
next
  case False
  obtain d ds where ds: "digits 10 (nat t) = d # ds"
    using digits_nonempty [of 10 "nat t"] by (cases "digits 10 (nat t)") auto
  have "is_digit d" using all_is_digit [of "nat t"] ds by simp
  then have "d \<noteq> 45" by (auto simp: is_digit_def)
  moreover have "read_nat (d # ds @ c # rest) = Some (nat t, c # rest)"
    using read_nat_digits [OF assms, of "nat t" rest] ds by simp
  ultimately show ?thesis
    using False by (simp add: read_int_def toString_def ds)
qed

lemma expect_append1: "expect a (a @ r) = Some r"
  by (simp add: expect_def)

lemma expect_append3: "expect (a @ b @ c) (a @ b @ c @ r) = Some r"
  using expect_append1 [of "a @ b @ c" r] by simp

lemma read_note_stringify_note: "read_note (stringify_note n @ rest) = Some (n, rest)"
proof -
  have close: "\<not> is_digit 125" by (simp add: is_digit_def)
  have num: "read_int (toString 10 u @ js ''}'' @ r) = Some (u, js ''}'' @ r)" for u r
    using read_int_toString [OF close, of u r] by (simp add: js_def)
  show ?thesis
    unfolding read_note_def stringify_note_def
    by (simp only: append_assoc expect_append1 expect_append3 read_string_QuoteJSONString num
        Option.bind.simps prod.case)
      simp
qed

lemma join_elements:
  "join (js '','') (map stringify_note (n # ns)) @ js '']'' = stringify_note n @ elements ns"
  by (induction ns arbitrary: n) simp_all

lemma read_elements_elements: "read_elements (elements ns @ rest) = Some (ns, rest)"
proof (induction ns)
  case Nil
  show ?case by (simp add: read_elements.simps [of "93 # rest"] js_def)
next
  case (Cons n ns)
  have "read_elements (44 # stringify_note n @ elements ns @ rest) = Some (n # ns, rest)"
    by (subst read_elements.simps) (simp add: read_note_stringify_note Cons.IH js_def)
  then show ?case by (simp add: js_def)
qed

lemma stringify_note_hd: "\<exists>r. stringify_note n = 123 # r"
  by (simp add: stringify_note_def js_def)

lemma read_array_stringify: "read_array (JSON_stringify ns) = Some (ns, [])"
proof (cases ns)
  case Nil
  then show ?thesis by (simp add: read_array_def JSON_stringify_def js_def)
next
  case (Cons n ns')
  obtain r where r: "stringify_note n = 123 # r"
    using stringify_note_hd by blast
  have body: "JSON_stringify ns = 91 # stringify_note n @ elements ns'"
    using join_elements [of n ns'] by (simp add: JSON_stringify_def Cons js_def)
  have "read_note (stringify_note n @ elements ns') = Some (n, elements ns')"
    by (rule read_note_stringify_note)
  moreover have "read_elements (elements ns') = Some (ns', [])"
    using read_elements_elements [of ns' "[]"] by simp
  ultimately have "read_array (91 # stringify_note n @ elements ns') = Some (n # ns', [])"
    using r by (simp add: read_array_def js_def)
  with body Cons show ?thesis by simp
qed

lemma QuoteJSONString_example:
  "QuoteJSONString [97, 0x22, 0x0A, 0x01, 0xD83D, 0xDE00, 0xDE00, 98] =
     0x22 # js ''a'' @ [0x5C, 0x22] @ 0x5C # js ''n'' @ 0x5C # js ''u0001'' @ [0xD83D, 0xDE00] @
     0x5C # js ''ude00b'' @ [0x22]"
  by (simp add: QuoteJSONString_def QuoteJSONChar_def UnicodeEscape_def hex4_def digit_char_def
      is_leading_surrogate_def is_trailing_surrogate_def js_def)

lemma JSON_stringify_example:
  \<open>JSON_stringify (notes' one_note) =
     js ''[{"id":"note_4fzzzxjyl_loyw3v28","title":"Untitled Note","content":"","updated":1700000000000}]''\<close>
proof -
  have n: "notes' one_note =
      [\<lparr>note_id = js ''note_4fzzzxjyl_loyw3v28'', title = js ''Untitled Note'',
        content = js '''', updated = 1700000000000\<rparr>]"
    by (simp add: one_note_def handleAddNote_def empty_state_def Let_def generateId_example)
  show ?thesis
    unfolding n
    by (simp add: JSON_stringify_def stringify_note_def QuoteJSONString_def QuoteJSONChar_def
        is_leading_surrogate_def is_trailing_surrogate_def
        toString_def digits_small digits_large digit_char_def js_def)
qed

lemma JSON_parse_stringify: "JSON_parse (JSON_stringify ns) = Some ns"
  by (simp add: JSON_parse_def read_array_stringify)

lemma JSON_stringify_nonempty: "JSON_stringify ns \<noteq> []"
  by (simp add: JSON_stringify_def js_def)

text \<open>
  C9. Loading from a storage to which a collection has been persisted gives that
  collection again: the same notes in the same order, each with its id, title, content
  and \<open>updated\<close>.
\<close>

theorem persist_then_loadAll: "loadAll (persist ns st) = Some ns"
  by (simp add: loadAll_def persist_def JSON_parse_stringify JSON_stringify_nonempty)

end
